theory Spec2Isabelle
  imports Main
begin

section \<open>Errors and tokens\<close>

text \<open>
  The Python exceptions that the solver can raise, as values.  \<open>NameError\<close> stands for
  the \<open>UnboundLocalError\<close> raised when a local variable is read before assignment,
  \<open>TypeError\<close> for the use of \<open>None\<close> as a move.
\<close>

datatype py_error = ValueError | IndexError | KeyError | TypeError | NameError

text \<open>
  A token of a decomposition is a Python string; \<open>upper\<close> and \<open>lower\<close> are
  \<open>str.upper\<close> and \<open>str.lower\<close> on ASCII letters.
\<close>

type_synonym token = string

definition upper_char :: "char \<Rightarrow> char" where
  "upper_char c =
     (let n = (of_char c :: nat) in if 97 \<le> n \<and> n \<le> 122 then char_of (n - 32) else c)"

definition lower_char :: "char \<Rightarrow> char" where
  "lower_char c =
     (let n = (of_char c :: nat) in if 65 \<le> n \<and> n \<le> 90 then char_of (n + 32) else c)"

definition upper :: "token \<Rightarrow> token" where
  "upper s = map upper_char s"

definition lower :: "token \<Rightarrow> token" where
  "lower s = map lower_char s"

section \<open>Permutation matrices\<close>

text \<open>
  Every matrix of \<open>utilities.py\<close> is a square numpy matrix with exactly one entry 1 in
  each row and each column, all other entries 0: \<open>np.eye\<close>, the transposition
  matrices \<open>T\<close>, the block matrices assembled in \<open>move.__init__\<close>, and their products
  and powers.  Such a matrix is held as the list of its rows, each row given by the
  column index of its entry 1.  A column vector is the list of its entries.

  With \<open>(A*B)[r,c] = \<Sum>k. A[r,k] * B[k,c]\<close>, row \<open>r\<close> of \<open>A*B\<close> has its 1 in the column
  where row \<open>A ! r\<close> of \<open>B\<close> has it, and \<open>(A*y)[r] = y[A ! r]\<close>.
\<close>

type_synonym matrix = "nat list"
type_synonym vector = "nat list"

definition eye :: "nat \<Rightarrow> matrix" where
  "eye N = [0..<N]"

definition T :: "nat \<Rightarrow> nat \<Rightarrow> nat \<Rightarrow> matrix" where
  "T N i j = (eye N)[i := j, j := i]"

definition mat_mul :: "matrix \<Rightarrow> matrix \<Rightarrow> matrix" where
  "mat_mul A B = map (\<lambda>c. B ! c) A"

definition mat_vec :: "matrix \<Rightarrow> vector \<Rightarrow> vector" where
  "mat_vec A y = map (\<lambda>c. y ! c) A"

text \<open>Position of the first occurrence of \<open>c\<close> in a list.\<close>

definition index_of :: "nat list \<Rightarrow> nat \<Rightarrow> nat" where
  "index_of A c = length (takeWhile (\<lambda>x. x \<noteq> c) A)"

text \<open>
  \<open>A ** (-1)\<close>: the inverse of a permutation matrix is its transpose, whose row \<open>r\<close> has
  its 1 in the column \<open>c\<close> with \<open>A ! c = r\<close>.
\<close>

definition mat_inv :: "matrix \<Rightarrow> matrix" where
  "mat_inv A = map (index_of A) [0..<length A]"

text \<open>\<open>A ** n\<close> for \<open>n \<ge> 0\<close>: the identity for \<open>n = 0\<close>, \<open>A\<close> itself for \<open>n = 1\<close>, the
  \<open>n\<close>-fold product otherwise.\<close>

primrec mat_pow :: "matrix \<Rightarrow> nat \<Rightarrow> matrix" where
  "mat_pow A 0 = eye (length A)"
| "mat_pow A (Suc n) = (if n = 0 then A else mat_mul A (mat_pow A n))"

text \<open>\<open>linalg.block_diag\<close> of two matrices.\<close>

definition block_diag :: "matrix \<Rightarrow> matrix \<Rightarrow> matrix" where
  "block_diag A B = A @ map (\<lambda>c. length A + c) B"

section \<open>The class \<open>move\<close>\<close>

record move =
  A8 :: matrix
  A12 :: matrix
  S3 :: matrix
  S2 :: matrix
  decompo :: "token list"

text \<open>\<open>move(seq = s)\<close>: neither matrices nor cycles are given.\<close>

definition move_seq :: "token list \<Rightarrow> move" where
  "move_seq s = \<lparr>A8 = eye 8, A12 = eye 12, S3 = eye (3 * 8), S2 = eye (2 * 12), decompo = s\<rparr>"

text \<open>\<open>move(M8 = .., M12 = .., M3 = .., M2 = .., seq = s)\<close>: the matrices are copied.\<close>

definition move_M :: "matrix \<Rightarrow> matrix \<Rightarrow> matrix \<Rightarrow> matrix \<Rightarrow> token list \<Rightarrow> move" where
  "move_M m8 m12 m3 m2 s = \<lparr>A8 = m8, A12 = m12, S3 = m3, S2 = m2, decompo = s\<rparr>"

text \<open>
  The orientation matrix built from cycle notation: the list \<open>s\<close> of small blocks starts
  as identities of size \<open>b\<close>, block \<open>p ! i\<close> is replaced by the \<open>(o ! i)\<close>-th power of
  \<open>rot\<close> for \<open>i\<close> in \<open>range(len(o))\<close>, and block row \<open>i\<close> is written at block column
  \<open>y[i]\<close>, where \<open>y\<close> is the position matrix applied to \<open>range(N)\<close>.
\<close>

definition set_blocks :: "matrix list \<Rightarrow> nat list \<Rightarrow> matrix \<Rightarrow> nat list \<Rightarrow> matrix list" where
  "set_blocks s p rot ori = foldl (\<lambda>s i. s[p ! i := mat_pow rot (ori ! i)]) s [0..<length ori]"

definition orient_matrix :: "nat \<Rightarrow> nat \<Rightarrow> matrix \<Rightarrow> nat list \<Rightarrow> matrix \<Rightarrow> nat list \<Rightarrow> matrix" where
  "orient_matrix N b A p rot ori =
     (let s = set_blocks (replicate N (eye b)) p rot ori;
          y = mat_vec A [0..<N]
      in concat (map (\<lambda>i. map (\<lambda>c. b * (y ! i) + c) (s ! i)) [0..<N]))"

text \<open>\<open>move(P8 = .., P3 = .., P12 = .., P2 = .., seq = s)\<close>.\<close>

definition cycle_matrix :: "nat \<Rightarrow> nat list \<Rightarrow> matrix" where
  "cycle_matrix N p =
     mat_mul (mat_mul (T N (p ! 0) (p ! 3)) (T N (p ! 0) (p ! 2))) (T N (p ! 0) (p ! 1))"

definition move_P :: "nat list \<Rightarrow> nat list \<Rightarrow> nat list \<Rightarrow> nat list \<Rightarrow> token list \<Rightarrow> move" where
  "move_P p8 p3 p12 p2 s =
     (let a8 = cycle_matrix 8 p8; a12 = cycle_matrix 12 p12 in
      \<lparr>A8 = a8, A12 = a12,
       S3 = orient_matrix 8 3 a8 p8 (mat_mul (T 3 0 2) (T 3 0 1)) p3,
       S2 = orient_matrix 12 2 a12 p12 (T 2 0 1) p2,
       decompo = s\<rparr>)"

text \<open>\<open>make_M\<close>: the attribute \<open>M\<close>, block diagonal of the four matrices.\<close>

definition make_M :: "move \<Rightarrow> matrix" where
  "make_M m = block_diag (block_diag (block_diag (A8 m) (A12 m)) (S3 m)) (S2 m)"

text \<open>\<open>__mul__\<close>.\<close>

definition mul :: "move \<Rightarrow> move \<Rightarrow> move" where
  "mul self other =
     move_M (mat_mul (A8 self) (A8 other)) (mat_mul (A12 self) (A12 other))
            (mat_mul (S3 self) (S3 other)) (mat_mul (S2 self) (S2 other))
            (decompo other @ decompo self)"

text \<open>
  \<open>__pow__\<close>.  The branch for \<open>expo = -1\<close> reverses the decomposition and swaps the case
  of each token; the branch for \<open>expo \<ge> 1\<close> repeats the decomposition.
\<close>

definition swap_case :: "token \<Rightarrow> token" where
  "swap_case A = (if A = upper A then lower A else upper A)"

definition inverse_move :: "move \<Rightarrow> move" where
  "inverse_move self =
     move_M (mat_inv (A8 self)) (mat_inv (A12 self)) (mat_inv (S3 self)) (mat_inv (S2 self))
            (map swap_case (rev (decompo self)))"

definition power_move :: "move \<Rightarrow> nat \<Rightarrow> move" where
  "power_move self n =
     move_M (mat_pow (A8 self) n) (mat_pow (A12 self) n) (mat_pow (S3 self) n)
            (mat_pow (S2 self) n) (concat (replicate n (decompo self)))"

definition pow :: "move \<Rightarrow> int \<Rightarrow> py_error + move" where
  "pow self expo =
     (if expo > -2 then
        (if expo = 0 then Inr (move_seq [])
         else if expo = -1 then Inr (inverse_move self)
         else Inr (power_move self (nat expo)))
      else Inl ValueError)"

text \<open>\<open>conjugate(A, G) = G*A*G**(-1)\<close> and \<open>commutator(A, B) = B**(-1)*A**(-1)*B*A\<close>.\<close>

definition conjugate :: "move \<Rightarrow> move \<Rightarrow> move" where
  "conjugate A G = mul (mul G A) (inverse_move G)"

definition commutator :: "move \<Rightarrow> move \<Rightarrow> move" where
  "commutator A B = mul (mul (mul (inverse_move B) (inverse_move A)) B) A"

section \<open>The constants of \<open>Kube.py\<close>\<close>

definition F :: move where
  "F = move_P [0,2,6,4] [1,2,1,2] [4,1,6,9] [1,1,1,1] [''F'']"
definition f :: move where "f = inverse_move F"
definition R :: move where
  "R = move_P [4,6,7,5] [1,2,1,2] [8,9,11,10] [0,0,0,0] [''R'']"
definition r :: move where "r = inverse_move R"
definition U :: move where
  "U = move_P [6,2,3,7] [0,0,0,0] [6,3,7,11] [0,0,0,0] [''U'']"
definition u :: move where "u = inverse_move U"
definition B :: move where
  "B = move_P [1,5,7,3] [2,1,2,1] [7,2,5,10] [1,1,1,1] [''B'']"
definition b :: move where "b = inverse_move B"
definition L :: move where
  "L = move_P [0,1,3,2] [2,1,2,1] [0,2,3,1] [0,0,0,0] [''L'']"
definition l :: move where "l = inverse_move L"
definition D :: move where
  "D = move_P [0,4,5,1] [0,0,0,0] [0,4,8,5] [0,0,0,0] [''D'']"
definition d :: move where "d = inverse_move D"

definition fund :: "token \<rightharpoonup> move" where
  "fund = map_of [(''F'', F), (''f'', f), (''R'', R), (''r'', r), (''U'', U), (''u'', u),
                  (''B'', B), (''b'', b), (''L'', L), (''l'', l), (''D'', D), (''d'', d)]"

definition fund_l :: "move list" where
  "fund_l = [F, power_move F 2, f, R, power_move R 2, r, U, power_move U 2, u,
             B, power_move B 2, b, L, power_move L 2, l, D, power_move D 2, d]"

text \<open>The moves with special behaviour; a product \<open>a*b*c\<close> associates to the left.\<close>

definition M0 :: move where
  "M0 = power_move (mul F (commutator U L)) 3"

definition M1 :: move where
  "M1 = mul (power_move (mul f L) 3) (power_move (mul F l) 3)"

definition M20 :: move where
  "M20 = foldl mul (power_move U 2) [F, b, power_move L 2, f, B]"

definition M21 :: move where
  "M21 = foldl mul (power_move B 2) [R, l, power_move U 2, r, L]"

definition M22 :: move where
  "M22 = foldl mul (power_move U 2) [R, l, power_move F 2, r, L]"

definition M23 :: move where
  "M23 = foldl mul (power_move B 2) [D, u, power_move R 2, d, U]"

definition M30 :: move where
  "M30 = foldl mul l [R, F, l, R, D, l, R, B, B, r, L, D, r, L, F, r, L, U, U]"

definition M31 :: move where
  "M31 = foldl mul b [F, D, b, F, R, b, F, U, U, f, B, R, f, B, D, f, B, L, L]"

section \<open>The state of the cube\<close>

text \<open>
  The vector \<open>X\<close> of \<open>move_list_to_state\<close> (and of \<open>__str__\<close>): the 8 corner labels,
  the 12 edge labels, \<open>range(3)\<close> for each corner and \<open>range(2)\<close> for each edge.
\<close>

definition X :: vector where
  "X = [0..<8] @ [0..<12] @ concat (replicate 8 [0..<3]) @ concat (replicate 12 [0..<2])"

text \<open>The loop \<open>for a in actions: M = fund[a]*M\<close>; an unknown key raises \<open>KeyError\<close>.\<close>

fun replay :: "token list \<Rightarrow> move \<Rightarrow> py_error + move" where
  "replay [] M = Inr M"
| "replay (a # actions) M =
     (case fund a of None \<Rightarrow> Inl KeyError | Some g \<Rightarrow> replay actions (mul g M))"

definition move_list_to_state :: "token list \<Rightarrow> py_error + vector" where
  "move_list_to_state actions =
     (case replay actions (move_seq []) of
        Inl e \<Rightarrow> Inl e
      | Inr M \<Rightarrow> Inr (mat_vec (make_M M) X))"

section \<open>Connector search\<close>

text \<open>\<open>y[i]\<close> on a column vector: out of range raises \<open>IndexError\<close>.\<close>

definition get :: "vector \<Rightarrow> nat \<Rightarrow> py_error + nat" where
  "get y i = (if i < length y then Inr (y ! i) else Inl IndexError)"

text \<open>
  The condition under \<open>not(...)\<close> in the candidate loop.  \<open>m.decompo[0]\<close> is read first
  and \<open>g.decompo[-1]\<close> is read in each of the three disjuncts, so either empty
  decomposition raises \<open>IndexError\<close>.
\<close>

definition cancels :: "move \<Rightarrow> move \<Rightarrow> py_error + bool" where
  "cancels m g =
     (case decompo m of
        [] \<Rightarrow> Inl IndexError
      | m0 # _ \<Rightarrow>
          if decompo g = [] then Inl IndexError
          else let gl = last (decompo g) in
            Inr ((upper m0 = m0 \<and> gl = lower m0) \<or> (lower m0 = m0 \<and> gl = upper m0)
                 \<or> m0 = gl))"

text \<open>The inner loop \<open>for g in prev\<close> for one \<open>m\<close>, and the outer loop \<open>for m in fact\<close>;
  both return what they append to \<open>cur\<close>.\<close>

fun extend_one :: "nat \<Rightarrow> move \<Rightarrow> move list \<Rightarrow> py_error + move list" where
  "extend_one n_combi m [] = Inr []"
| "extend_one n_combi m (g # prev) =
     (if n_combi = 1 then
        (case extend_one n_combi m prev of
           Inl e \<Rightarrow> Inl e
         | Inr cur \<Rightarrow> Inr (mul m g # cur))
      else
        (case cancels m g of
           Inl e \<Rightarrow> Inl e
         | Inr c \<Rightarrow>
            (case extend_one n_combi m prev of
               Inl e \<Rightarrow> Inl e
             | Inr cur \<Rightarrow> Inr (if \<not> c then mul m g # cur else cur))))"

fun extend :: "nat \<Rightarrow> move list \<Rightarrow> move list \<Rightarrow> py_error + move list" where
  "extend n_combi [] prev = Inr []"
| "extend n_combi (m # facts) prev =
     (case extend_one n_combi m prev of
        Inl e \<Rightarrow> Inl e
      | Inr cur1 \<Rightarrow>
         (case extend n_combi facts prev of
            Inl e \<Rightarrow> Inl e
          | Inr cur2 \<Rightarrow> Inr (cur1 @ cur2)))"

text \<open>The loop \<open>for m in cur: if test(m): return m\<close>.\<close>

fun first_match :: "(move \<Rightarrow> py_error + bool) \<Rightarrow> move list \<Rightarrow> py_error + move option" where
  "first_match test [] = Inr None"
| "first_match test (m # cur) =
     (case test m of
        Inl e \<Rightarrow> Inl e
      | Inr t \<Rightarrow> if t then Inr (Some m) else first_match test cur)"

text \<open>
  The four search functions \<open>send_8\<close>, \<open>send_8_slow\<close>, \<open>send_12\<close> and \<open>send_12_slow\<close>
  have the same body and differ in the condition tested on each candidate only; \<open>send\<close>
  is that body, with the condition as a parameter.  The result \<open>Inr None\<close> is the
  Python value \<open>None\<close>.
\<close>

function send :: "(move \<Rightarrow> py_error + bool) \<Rightarrow> move list \<Rightarrow> nat \<Rightarrow> nat \<Rightarrow> move list
    \<Rightarrow> py_error + move option" where
  "send test auth maxMove n_combi prev =
     (if n_combi > maxMove then Inr None
      else
        (case extend n_combi (if n_combi = 1 then move_seq [] # auth else auth) prev of
           Inl e \<Rightarrow> Inl e
         | Inr cur \<Rightarrow>
            (case first_match test cur of
               Inl e \<Rightarrow> Inl e
             | Inr (Some m) \<Rightarrow> Inr (Some m)
             | Inr None \<Rightarrow>
                 send test auth maxMove (n_combi + 1) (filter (\<lambda>m. decompo m \<noteq> []) cur))))"
  by pat_completeness auto
termination
  by (relation "measure (\<lambda>(test, auth, maxMove, n_combi, prev). Suc maxMove - n_combi)") auto

declare send.simps [simp del]

text \<open>The conditions of the four functions, with Python's short-circuit evaluation.\<close>

definition test_8 :: "nat \<Rightarrow> nat \<Rightarrow> nat \<Rightarrow> nat \<Rightarrow> move \<Rightarrow> py_error + bool" where
  "test_8 cb1 cb2 cl1 cl2 m =
     (let y = mat_vec (A8 m) [0..<8] in
      case get y cl1 of
        Inl e \<Rightarrow> Inl e
      | Inr a \<Rightarrow>
          if a = cb1 \<or> a = cb2 then
            (case get y cl2 of
               Inl e \<Rightarrow> Inl e
             | Inr c \<Rightarrow> Inr ((a = cb1 \<and> c = cb2) \<or> (a = cb2 \<and> c = cb1)))
          else Inr False)"

definition test_8_slow :: "nat \<Rightarrow> nat \<Rightarrow> nat \<Rightarrow> nat \<Rightarrow> move \<Rightarrow> py_error + bool" where
  "test_8_slow cb1 cb2 cl1 cl2 m =
     (let y = mat_vec (A8 m) [0..<8] in
      case get y cl1 of
        Inl e \<Rightarrow> Inl e
      | Inr a \<Rightarrow>
          if a = cb1 then
            (case get y cl2 of Inl e \<Rightarrow> Inl e | Inr c \<Rightarrow> Inr (c = cb2))
          else Inr False)"

definition test_12 :: "nat \<Rightarrow> nat \<Rightarrow> nat \<Rightarrow> nat \<Rightarrow> nat \<Rightarrow> move \<Rightarrow> py_error + bool" where
  "test_12 cb1 cb2 cb3 cl1 cl2 m =
     (let y = mat_vec (A12 m) [0..<12] in
      case get y cl1 of
        Inl e \<Rightarrow> Inl e
      | Inr a \<Rightarrow>
          if a = cb1 then
            (case get y cl2 of
               Inl e \<Rightarrow> Inl e
             | Inr c \<Rightarrow> Inr (c = cb2 \<and> cb3 \<in> set (drop (cl1 + 1) y)))
          else Inr False)"

definition test_12_slow :: "nat \<Rightarrow> nat \<Rightarrow> nat \<Rightarrow> nat \<Rightarrow> move \<Rightarrow> py_error + bool" where
  "test_12_slow cb1 cb2 cl1 cl2 m =
     (let y = mat_vec (A12 m) [0..<12] in
      case get y cl1 of
        Inl e \<Rightarrow> Inl e
      | Inr a \<Rightarrow>
          if a = cb1 then
            (case get y cl2 of Inl e \<Rightarrow> Inl e | Inr c \<Rightarrow> Inr (c = cb2))
          else Inr False)"

definition send_8 :: "nat \<Rightarrow> nat \<Rightarrow> nat \<Rightarrow> nat \<Rightarrow> move list \<Rightarrow> nat \<Rightarrow> nat \<Rightarrow> move list
    \<Rightarrow> py_error + move option" where
  "send_8 cb1 cb2 cl1 cl2 auth maxMove n_combi prev =
     send (test_8 cb1 cb2 cl1 cl2) auth maxMove n_combi prev"

definition send_8_slow :: "nat \<Rightarrow> nat \<Rightarrow> nat \<Rightarrow> nat \<Rightarrow> move list \<Rightarrow> nat \<Rightarrow> nat \<Rightarrow> move list
    \<Rightarrow> py_error + move option" where
  "send_8_slow cb1 cb2 cl1 cl2 auth maxMove n_combi prev =
     send (test_8_slow cb1 cb2 cl1 cl2) auth maxMove n_combi prev"

definition send_12 :: "nat \<Rightarrow> nat \<Rightarrow> nat \<Rightarrow> nat \<Rightarrow> nat \<Rightarrow> move list \<Rightarrow> nat \<Rightarrow> nat \<Rightarrow> move list
    \<Rightarrow> py_error + move option" where
  "send_12 cb1 cb2 cb3 cl1 cl2 auth maxMove n_combi prev =
     send (test_12 cb1 cb2 cb3 cl1 cl2) auth maxMove n_combi prev"

definition send_12_slow :: "nat \<Rightarrow> nat \<Rightarrow> nat \<Rightarrow> nat \<Rightarrow> move list \<Rightarrow> nat \<Rightarrow> nat \<Rightarrow> move list
    \<Rightarrow> py_error + move option" where
  "send_12_slow cb1 cb2 cl1 cl2 auth maxMove n_combi prev =
     send (test_12_slow cb1 cb2 cl1 cl2) auth maxMove n_combi prev"

text \<open>The default values of \<open>maxMove\<close>, \<open>n_combi\<close> and \<open>prev\<close>.\<close>

definition maxMove_8 :: nat where "maxMove_8 = 5"
definition maxMove_12 :: nat where "maxMove_12 = 3"
definition prev0 :: "move list" where "prev0 = [move_seq []]"

section \<open>The four phases\<close>

text \<open>\<open>conjugate(A, G)\<close> where \<open>G\<close> is the result of a search: \<open>None * A\<close> raises
  \<open>TypeError\<close>.\<close>

definition conjugate_res :: "move \<Rightarrow> move option \<Rightarrow> py_error + move" where
  "conjugate_res A G = (case G of None \<Rightarrow> Inl TypeError | Some g \<Rightarrow> Inr (conjugate A g))"

text \<open>\<open>[k for k in range(i+1, len(y)) if int(y[k]) == i][0]\<close>.\<close>

definition find_after :: "vector \<Rightarrow> nat \<Rightarrow> py_error + nat" where
  "find_after y i =
     (case filter (\<lambda>k. y ! k = i) [i + 1..<length y] of
        [] \<Rightarrow> Inl IndexError
      | j # _ \<Rightarrow> Inr j)"

text \<open>\<open>solve_corner_pos\<close>: the loop over \<open>range(8)\<close> carries \<open>y\<close> and \<open>res\<close>.\<close>

fun corner_pos_loop :: "move \<Rightarrow> nat \<Rightarrow> nat \<Rightarrow> move list \<Rightarrow> nat list \<Rightarrow> vector \<Rightarrow> move
    \<Rightarrow> py_error + move" where
  "corner_pos_loop switcher c1 c2 auth [] y res = Inr res"
| "corner_pos_loop switcher c1 c2 auth (i # is) y res =
     (if y ! i \<noteq> i then
        (case find_after y i of
           Inl e \<Rightarrow> Inl e
         | Inr j \<Rightarrow>
            (case send_8 c1 c2 i j auth maxMove_8 1 prev0 of
               Inl e \<Rightarrow> Inl e
             | Inr G \<Rightarrow>
                (case conjugate_res switcher G of
                   Inl e \<Rightarrow> Inl e
                 | Inr next_move \<Rightarrow>
                     corner_pos_loop switcher c1 c2 auth is
                       (mat_vec (A8 next_move) y) (mul next_move res))))
      else corner_pos_loop switcher c1 c2 auth is y res)"

definition solve_corner_pos :: "vector \<Rightarrow> move \<Rightarrow> nat \<Rightarrow> nat \<Rightarrow> move list \<Rightarrow> py_error + move" where
  "solve_corner_pos Y switcher c1 c2 auth =
     corner_pos_loop switcher c1 c2 auth [0..<8] Y (move_seq [])"

text \<open>\<open>pivot_corner_cubies\<close>: the loop over \<open>range(1, 8)\<close>.\<close>

fun pivot_corner_loop :: "move \<Rightarrow> nat \<Rightarrow> move list \<Rightarrow> nat list \<Rightarrow> vector \<Rightarrow> move
    \<Rightarrow> py_error + move" where
  "pivot_corner_loop flipper c2 auth [] y res = Inr res"
| "pivot_corner_loop flipper c2 auth (i # is) y res =
     (if y ! (3 * i) = 2 then
        (case send_8_slow 0 c2 0 i auth maxMove_8 1 prev0 of
           Inl e \<Rightarrow> Inl e
         | Inr G \<Rightarrow>
            (case conjugate_res flipper G of
               Inl e \<Rightarrow> Inl e
             | Inr next_move \<Rightarrow>
                 pivot_corner_loop flipper c2 auth is
                   (mat_vec (S3 next_move) y) (mul next_move res)))
      else if y ! (3 * i) = 1 then
        (case send_8_slow 0 c2 0 i auth maxMove_8 1 prev0 of
           Inl e \<Rightarrow> Inl e
         | Inr G \<Rightarrow>
            (case conjugate_res flipper G of
               Inl e \<Rightarrow> Inl e
             | Inr cj \<Rightarrow>
                (let next_move = power_move cj 2 in
                 pivot_corner_loop flipper c2 auth is
                   (mat_vec (S3 next_move) y) (mul next_move res))))
      else pivot_corner_loop flipper c2 auth is y res)"

definition pivot_corner_cubies :: "vector \<Rightarrow> move \<Rightarrow> nat \<Rightarrow> move list \<Rightarrow> py_error + move" where
  "pivot_corner_cubies Y flipper c2 auth =
     pivot_corner_loop flipper c2 auth [1..<8] Y (move_seq [])"

text \<open>
  \<open>solve_edge_pos\<close>.  The inner loop \<open>for k in range(len(c_l))\<close> assigns \<open>next_move\<close>
  and breaks at the first \<open>k\<close> whose search does not return \<open>None\<close>; when no search
  succeeds the variable keeps what it held before the loop.  The variable is local to
  the function, not to the iteration, so the outer loop carries it: \<open>None\<close> is
  "not yet assigned", and reading it then raises \<open>UnboundLocalError\<close>.
\<close>

fun try_switchers :: "move list \<Rightarrow> nat list list \<Rightarrow> move list \<Rightarrow> nat \<Rightarrow> nat \<Rightarrow> nat list
    \<Rightarrow> move option \<Rightarrow> py_error + move option" where
  "try_switchers switcher_l c_l auth i j [] next_move = Inr next_move"
| "try_switchers switcher_l c_l auth i j (k # ks) next_move =
     (case send_12 (c_l ! k ! 0) (c_l ! k ! 1) (c_l ! k ! 2) i j auth maxMove_12 1 prev0 of
        Inl e \<Rightarrow> Inl e
      | Inr (Some G) \<Rightarrow> Inr (Some (conjugate (switcher_l ! k) G))
      | Inr None \<Rightarrow> try_switchers switcher_l c_l auth i j ks next_move)"

fun edge_pos_loop :: "move list \<Rightarrow> nat list list \<Rightarrow> move list \<Rightarrow> nat list \<Rightarrow> vector \<Rightarrow> move
    \<Rightarrow> move option \<Rightarrow> py_error + move" where
  "edge_pos_loop switcher_l c_l auth [] y res next_move = Inr res"
| "edge_pos_loop switcher_l c_l auth (i # is) y res next_move =
     (if y ! i \<noteq> i then
        (case find_after y i of
           Inl e \<Rightarrow> Inl e
         | Inr j \<Rightarrow>
            (case try_switchers switcher_l c_l auth i j [0..<length c_l] next_move of
               Inl e \<Rightarrow> Inl e
             | Inr None \<Rightarrow> Inl NameError
             | Inr (Some next_move') \<Rightarrow>
                 edge_pos_loop switcher_l c_l auth is
                   (mat_vec (A12 next_move') y) (mul next_move' res) (Some next_move')))
      else edge_pos_loop switcher_l c_l auth is y res next_move)"

definition solve_edge_pos :: "vector \<Rightarrow> move list \<Rightarrow> nat list list \<Rightarrow> move list \<Rightarrow> py_error + move" where
  "solve_edge_pos Y switcher_l c_l auth =
     edge_pos_loop switcher_l c_l auth [0..<10] Y (move_seq []) None"

text \<open>\<open>pivot_edge_cubies\<close>: the loop over \<open>range(1, 12)\<close>.\<close>

fun pivot_edge_loop :: "move \<Rightarrow> nat \<Rightarrow> move list \<Rightarrow> nat list \<Rightarrow> vector \<Rightarrow> move
    \<Rightarrow> py_error + move" where
  "pivot_edge_loop flipper c2 auth [] y res = Inr res"
| "pivot_edge_loop flipper c2 auth (i # is) y res =
     (if y ! (2 * i) \<noteq> 0 then
        (case send_12_slow 0 c2 0 i auth maxMove_12 1 prev0 of
           Inl e \<Rightarrow> Inl e
         | Inr G \<Rightarrow>
            (case conjugate_res flipper G of
               Inl e \<Rightarrow> Inl e
             | Inr next_move \<Rightarrow>
                 pivot_edge_loop flipper c2 auth is
                   (mat_vec (S2 next_move) y) (mul next_move res)))
      else pivot_edge_loop flipper c2 auth is y res)"

definition pivot_edge_cubies :: "vector \<Rightarrow> move \<Rightarrow> nat \<Rightarrow> move list \<Rightarrow> py_error + move" where
  "pivot_edge_cubies Y flipper c2 auth =
     pivot_edge_loop flipper c2 auth [1..<12] Y (move_seq [])"

section \<open>\<open>solve\<close>\<close>

definition solve :: "vector \<Rightarrow> py_error + token list" where
  "solve state =
     (let Y = state; Y1 = take 8 Y in
      case solve_corner_pos Y1 M0 1 3 fund_l of
        Inl e \<Rightarrow> Inl e
      | Inr res1 \<Rightarrow>
         (let Y = mat_vec (make_M res1) Y; Y2 = take (4 * 8 + 12 - (8 + 12)) (drop (8 + 12) Y) in
          case pivot_corner_cubies Y2 M1 2 fund_l of
            Inl e \<Rightarrow> Inl e
          | Inr res2 \<Rightarrow>
             (let Y = mat_vec (make_M res2) Y; Y3 = take 12 (drop 8 Y) in
              case solve_edge_pos Y3 [M20, M21, M22, M23]
                     [[0, 3, 11], [5, 6, 7], [4, 6, 7], [2, 9, 10]] fund_l of
                Inl e \<Rightarrow> Inl e
              | Inr res3 \<Rightarrow>
                 (let Y = mat_vec (make_M res3) Y; Y4 = drop (4 * 8 + 12) Y in
                  case pivot_edge_cubies Y4 M31 3 fund_l of
                    Inl e \<Rightarrow> Inl e
                  | Inr res4 \<Rightarrow> Inr (decompo (mul (mul (mul res4 res3) res2) res1))))))"

section \<open>Well-formed moves\<close>

text \<open>
  A list of column indices stands for an \<open>n \<times> n\<close> permutation matrix when it has \<open>n\<close>
  distinct entries below \<open>n\<close>.  A move is well formed when its four matrices are
  permutation matrices of the sizes 8, 12, 24 and 24: the invariant of the class, kept
  by every constructor call of the repository.
\<close>

definition perm_list :: "nat \<Rightarrow> nat list \<Rightarrow> bool" where
  "perm_list n p \<longleftrightarrow> length p = n \<and> distinct p \<and> list_all (\<lambda>c. c < n) p"

definition wf_move :: "move \<Rightarrow> bool" where
  "wf_move m \<longleftrightarrow> perm_list 8 (A8 m) \<and> perm_list 12 (A12 m) \<and> perm_list 24 (S3 m) \<and> perm_list 24 (S2 m)"

subsection \<open>Products and inverses of permutation matrices\<close>

lemma perm_list_set: "perm_list n p \<Longrightarrow> set p = {..<n}"
proof -
  assume h: "perm_list n p"
  then have "set p \<subseteq> {..<n}" by (auto simp: perm_list_def list_all_iff)
  moreover have "card (set p) = n" using h by (simp add: perm_list_def distinct_card)
  ultimately show ?thesis by (simp add: card_subset_eq)
qed

lemma perm_list_nth_less: "perm_list n p \<Longrightarrow> i < n \<Longrightarrow> p ! i < n"
  by (simp add: perm_list_def list_all_length)

lemma perm_list_eye: "perm_list n (eye n)"
  by (simp add: perm_list_def eye_def list_all_iff)

lemma mat_mul_length [simp]: "length (mat_mul P Q) = length P"
  by (simp add: mat_mul_def)

lemma mat_mul_nth: "i < length P \<Longrightarrow> mat_mul P Q ! i = Q ! (P ! i)"
  by (simp add: mat_mul_def)

lemma perm_list_mul: "perm_list n P \<Longrightarrow> perm_list n Q \<Longrightarrow> perm_list n (mat_mul P Q)"
proof -
  assume a: "perm_list n P" and b: "perm_list n Q"
  have inj: "inj_on (\<lambda>c. Q ! c) (set P)"
    using a b by (auto simp: perm_list_def inj_on_def list_all_iff nth_eq_iff_index_eq)
  show ?thesis
    using a b inj
    by (auto simp: perm_list_def mat_mul_def distinct_map list_all_iff)
qed

lemma mat_mul_assoc:
  "list_all (\<lambda>c. c < length Q) P \<Longrightarrow> mat_mul (mat_mul P Q) W = mat_mul P (mat_mul Q W)"
  by (auto simp: mat_mul_def list_all_iff)

lemma mat_mul_eye_left: "length P = n \<Longrightarrow> mat_mul (eye n) P = P"
  by (auto simp: mat_mul_def eye_def intro: nth_equalityI)

lemma mat_mul_eye_right: "list_all (\<lambda>c. c < n) P \<Longrightarrow> mat_mul P (eye n) = P"
  by (auto simp: mat_mul_def eye_def list_all_iff intro: nth_equalityI map_idI)

lemma index_of_nth: "distinct p \<Longrightarrow> i < length p \<Longrightarrow> index_of p (p ! i) = i"
proof (induction p arbitrary: i)
  case Nil then show ?case by simp
next
  case (Cons a p)
  then show ?case by (cases i) (auto simp: index_of_def)
qed

lemma nth_index_of: "c \<in> set p \<Longrightarrow> p ! index_of p c = c"
  by (induction p) (auto simp: index_of_def)

lemma index_of_less: "c \<in> set p \<Longrightarrow> index_of p c < length p"
  by (induction p) (auto simp: index_of_def)

lemma mat_inv_length [simp]: "length (mat_inv P) = length P"
  by (simp add: mat_inv_def)

lemma mat_mul_inv_right: "perm_list n p \<Longrightarrow> mat_mul p (mat_inv p) = eye n"
proof -
  assume h: "perm_list n p"
  then have d: "distinct p" and l: "length p = n" by (simp_all add: perm_list_def)
  show ?thesis
  proof (rule nth_equalityI)
    show "length (mat_mul p (mat_inv p)) = length (eye n)" using l by (simp add: eye_def)
  next
    fix i assume "i < length (mat_mul p (mat_inv p))"
    then have i: "i < n" using l by simp
    have "p ! i < n" using h i by (rule perm_list_nth_less)
    then show "mat_mul p (mat_inv p) ! i = eye n ! i"
      using i l d by (simp add: mat_mul_nth mat_inv_def eye_def index_of_nth)
  qed
qed

lemma mat_mul_inv_left: "perm_list n p \<Longrightarrow> mat_mul (mat_inv p) p = eye n"
proof -
  assume h: "perm_list n p"
  then have l: "length p = n" by (simp add: perm_list_def)
  have s: "set p = {..<n}" using h by (rule perm_list_set)
  show ?thesis
  proof (rule nth_equalityI)
    show "length (mat_mul (mat_inv p) p) = length (eye n)" using l by (simp add: eye_def)
  next
    fix i assume "i < length (mat_mul (mat_inv p) p)"
    then have i: "i < n" using l by simp
    then have "i \<in> set p" using s by simp
    then show "mat_mul (mat_inv p) p ! i = eye n ! i"
      using i l by (simp add: mat_mul_nth mat_inv_def eye_def nth_index_of)
  qed
qed

lemma perm_list_inv: "perm_list n p \<Longrightarrow> perm_list n (mat_inv p)"
proof -
  assume h: "perm_list n p"
  then have l: "length p = n" and d: "distinct p" by (simp_all add: perm_list_def)
  have s: "set p = {..<n}" using h by (rule perm_list_set)
  have "inj_on (index_of p) (set [0..<n])"
  proof (rule inj_onI)
    fix x y assume "x \<in> set [0..<n]" "y \<in> set [0..<n]" "index_of p x = index_of p y"
    then have "p ! index_of p x = p ! index_of p y" "x \<in> set p" "y \<in> set p" using s by auto
    then show "x = y" by (simp add: nth_index_of)
  qed
  moreover have "\<forall>c<n. index_of p c < n" using s l index_of_less by auto
  ultimately show ?thesis using l
    by (auto simp: perm_list_def mat_inv_def distinct_map list_all_iff)
qed

subsection \<open>Moves under composition, inverse and power\<close>

lemma perm_list_pow: "perm_list n P \<Longrightarrow> perm_list n (mat_pow P k)"
proof (induction k)
  case 0
  then have "length P = n" by (simp add: perm_list_def)
  then show ?case by (simp add: perm_list_eye)
next
  case (Suc k)
  then show ?case by (simp add: perm_list_mul)
qed

lemma move_M_sel [simp]:
  "A8 (move_M m8 m12 m3 m2 s) = m8" "A12 (move_M m8 m12 m3 m2 s) = m12"
  "S3 (move_M m8 m12 m3 m2 s) = m3" "S2 (move_M m8 m12 m3 m2 s) = m2"
  "decompo (move_M m8 m12 m3 m2 s) = s"
  by (simp_all add: move_M_def)

lemma move_seq_sel [simp]:
  "A8 (move_seq s) = eye 8" "A12 (move_seq s) = eye 12"
  "S3 (move_seq s) = eye 24" "S2 (move_seq s) = eye 24"
  "decompo (move_seq s) = s"
  by (simp_all add: move_seq_def)

lemma mul_sel [simp]:
  "A8 (mul x y) = mat_mul (A8 x) (A8 y)" "A12 (mul x y) = mat_mul (A12 x) (A12 y)"
  "S3 (mul x y) = mat_mul (S3 x) (S3 y)" "S2 (mul x y) = mat_mul (S2 x) (S2 y)"
  "decompo (mul x y) = decompo y @ decompo x"
  by (simp_all add: mul_def)

lemma inverse_move_sel [simp]:
  "A8 (inverse_move x) = mat_inv (A8 x)" "A12 (inverse_move x) = mat_inv (A12 x)"
  "S3 (inverse_move x) = mat_inv (S3 x)" "S2 (inverse_move x) = mat_inv (S2 x)"
  "decompo (inverse_move x) = map swap_case (rev (decompo x))"
  by (simp_all add: inverse_move_def)

lemma power_move_sel [simp]:
  "A8 (power_move x n) = mat_pow (A8 x) n" "A12 (power_move x n) = mat_pow (A12 x) n"
  "S3 (power_move x n) = mat_pow (S3 x) n" "S2 (power_move x n) = mat_pow (S2 x) n"
  "decompo (power_move x n) = concat (replicate n (decompo x))"
  by (simp_all add: power_move_def)

lemma move_eqI:
  "A8 x = A8 y \<Longrightarrow> A12 x = A12 y \<Longrightarrow> S3 x = S3 y \<Longrightarrow> S2 x = S2 y \<Longrightarrow> decompo x = decompo y
   \<Longrightarrow> x = (y :: move)"
  by simp

lemma wf_move_seq: "wf_move (move_seq s)"
  using perm_list_eye [of 8] perm_list_eye [of 12] perm_list_eye [of 24]
  by (simp add: wf_move_def)

lemma wf_move_mul: "wf_move x \<Longrightarrow> wf_move y \<Longrightarrow> wf_move (mul x y)"
  by (simp add: wf_move_def perm_list_mul)

lemma wf_move_inverse: "wf_move x \<Longrightarrow> wf_move (inverse_move x)"
  by (simp add: wf_move_def perm_list_inv)

lemma wf_move_power: "wf_move x \<Longrightarrow> wf_move (power_move x n)"
  by (simp add: wf_move_def perm_list_pow)

lemma perm_list_bound: "perm_list n P \<Longrightarrow> length Q = n \<Longrightarrow> list_all (\<lambda>c. c < length Q) P"
  by (simp add: perm_list_def)

lemma mul_assoc: "wf_move x \<Longrightarrow> wf_move y \<Longrightarrow> mul (mul x y) z = mul x (mul y z)"
  by (rule move_eqI) (simp_all add: wf_move_def perm_list_def mat_mul_assoc)

lemma mul_id_left: "wf_move x \<Longrightarrow> mul (move_seq []) x = x"
  by (rule move_eqI) (simp_all add: wf_move_def perm_list_def mat_mul_eye_left)

lemma mul_id_right: "wf_move x \<Longrightarrow> mul x (move_seq []) = x"
  by (rule move_eqI) (simp_all add: wf_move_def perm_list_def mat_mul_eye_right)

lemma mul_inverse_right_fields:
  assumes "wf_move x"
  shows "A8 (mul x (inverse_move x)) = eye 8" "A12 (mul x (inverse_move x)) = eye 12"
    "S3 (mul x (inverse_move x)) = eye 24" "S2 (mul x (inverse_move x)) = eye 24"
  using assms by (simp_all add: wf_move_def mat_mul_inv_right)

lemma mul_inverse_left_fields:
  assumes "wf_move x"
  shows "A8 (mul (inverse_move x) x) = eye 8" "A12 (mul (inverse_move x) x) = eye 12"
    "S3 (mul (inverse_move x) x) = eye 24" "S2 (mul (inverse_move x) x) = eye 24"
  using assms by (simp_all add: wf_move_def mat_mul_inv_left)

text \<open>\<open>x\<close> composed with itself \<open>n\<close> times by repeated \<open>__mul__\<close>, as the specification
  words the positive powers.\<close>
fun repeat_mul :: "move \<Rightarrow> nat \<Rightarrow> move" where
  "repeat_mul x 0 = move_seq []"
| "repeat_mul x (Suc 0) = x"
| "repeat_mul x (Suc (Suc n)) = mul x (repeat_mul x (Suc n))"

lemma mat_pow_Suc_Suc: "mat_pow P (Suc (Suc n)) = mat_mul P (mat_pow P (Suc n))"
  by simp

lemma concat_replicate_comm: "xs @ concat (replicate n xs) = concat (replicate n xs) @ xs"
  by (induction n) simp_all

lemma power_move_repeat: "power_move x (Suc n) = repeat_mul x (Suc n)"
proof (induction n)
  case 0
  show ?case by (rule move_eqI) simp_all
next
  case (Suc n)
  have "power_move x (Suc (Suc n)) = mul x (power_move x (Suc n))"
    by (rule move_eqI) (simp_all del: mat_pow.simps add: mat_pow_Suc_Suc concat_replicate_comm)
  then show ?case using Suc by simp
qed

lemma pow_cases:
  "pow x 0 = Inr (move_seq [])"
  "pow x (-1) = Inr (inverse_move x)"
  "1 \<le> n \<Longrightarrow> pow x n = Inr (repeat_mul x (nat n))"
  "n < -1 \<Longrightarrow> pow x n = Inl ValueError"
proof -
  show "pow x 0 = Inr (move_seq [])" by (simp add: pow_def)
  show "pow x (-1) = Inr (inverse_move x)" by (simp add: pow_def)
  show "n < -1 \<Longrightarrow> pow x n = Inl ValueError" by (simp add: pow_def)
  assume n: "1 \<le> n"
  then obtain k where k: "nat n = Suc k" by (cases "nat n") auto
  show "pow x n = Inr (repeat_mul x (nat n))"
    using n k power_move_repeat [of x k] by (simp add: pow_def)
qed

section \<open>The connector search, depth by depth\<close>

text \<open>
  \<open>cancel_b\<close> is the pruning condition as a truth value, for moves with a non-empty
  decomposition; \<open>compose_all [m1, .., mk]\<close> is the product \<open>m1 * (.. * (mk * identity))\<close>,
  the shape of every candidate of the search.
\<close>

definition cancel_b :: "move \<Rightarrow> move \<Rightarrow> bool" where
  "cancel_b m g =
     (let m0 = hd (decompo m); gl = last (decompo g) in
      (upper m0 = m0 \<and> gl = lower m0) \<or> (lower m0 = m0 \<and> gl = upper m0) \<or> m0 = gl)"

definition compose_all :: "move list \<Rightarrow> move" where
  "compose_all ms = foldr mul ms (move_seq [])"

definition nonempty :: "move \<Rightarrow> bool" where
  "nonempty m \<longleftrightarrow> decompo m \<noteq> []"

lemma cancels_nonempty:
  "nonempty m \<Longrightarrow> nonempty g \<Longrightarrow> cancels m g = Inr (cancel_b m g)"
  by (cases "decompo m") (simp_all add: cancels_def cancel_b_def nonempty_def Let_def)

lemma extend_one_first: "extend_one (Suc 0) m prev = Inr (map (mul m) prev)"
  by (induction prev) simp_all

lemma extend_one_later:
  "n \<noteq> Suc 0 \<Longrightarrow> nonempty m \<Longrightarrow> list_all nonempty prev \<Longrightarrow>
   extend_one n m prev = Inr (map (mul m) (filter (\<lambda>g. \<not> cancel_b m g) prev))"
  by (induction prev) (simp_all add: cancels_nonempty)

lemma extend_first:
  "extend (Suc 0) fs prev = Inr (concat (map (\<lambda>m. map (mul m) prev) fs))"
  by (induction fs) (simp_all add: extend_one_first)

lemma extend_later:
  "n \<noteq> Suc 0 \<Longrightarrow> list_all nonempty fs \<Longrightarrow> list_all nonempty prev \<Longrightarrow>
   extend n fs prev =
     Inr (concat (map (\<lambda>m. map (mul m) (filter (\<lambda>g. \<not> cancel_b m g) prev)) fs))"
  by (induction fs) (simp_all add: extend_one_later)

lemma first_match_find:
  "(\<And>m. m \<in> set cur \<Longrightarrow> test m = Inr (tb m)) \<Longrightarrow> first_match test cur = Inr (find tb cur)"
  by (induction cur) simp_all

text \<open>The candidates of one depth, as a list.\<close>
definition cur_of :: "move list \<Rightarrow> nat \<Rightarrow> move list \<Rightarrow> move list" where
  "cur_of auth n prev =
     (if n = 1 then concat (map (\<lambda>m. map (mul m) prev) (move_seq [] # auth))
      else concat (map (\<lambda>m. map (mul m) (filter (\<lambda>g. \<not> cancel_b m g) prev)) auth))"

lemma extend_cur_of:
  assumes "list_all nonempty auth" "n = 1 \<or> list_all nonempty prev"
  shows "extend n (if n = 1 then move_seq [] # auth else auth) prev = Inr (cur_of auth n prev)"
proof (cases "n = 1")
  case True
  then show ?thesis by (simp add: cur_of_def extend_first extend_one_first)
next
  case False
  then show ?thesis using assms by (simp add: cur_of_def extend_later)
qed

text \<open>A test that raises no error on the products with a first factor of the given shape.\<close>
definition total_on :: "(move \<Rightarrow> py_error + bool) \<Rightarrow> (move \<Rightarrow> bool) \<Rightarrow> move list \<Rightarrow> bool" where
  "total_on test tb auth \<longleftrightarrow> (\<forall>m g. m \<in> set (move_seq [] # auth) \<longrightarrow> test (mul m g) = Inr (tb (mul m g)))"

lemma cur_of_shape:
  "x \<in> set (cur_of auth n prev) \<Longrightarrow> \<exists>m g. m \<in> set (move_seq [] # auth) \<and> g \<in> set prev \<and> x = mul m g"
  by (auto simp: cur_of_def split: if_splits)

lemma first_match_cur:
  assumes "total_on test tb auth"
  shows "first_match test (cur_of auth n prev) = Inr (find tb (cur_of auth n prev))"
proof (rule first_match_find)
  fix m assume "m \<in> set (cur_of auth n prev)"
  then obtain a g where "a \<in> set (move_seq [] # auth)" "m = mul a g"
    using cur_of_shape by blast
  then show "test m = Inr (tb m)" using assms unfolding total_on_def by blast
qed

lemma send_unfold:
  assumes "total_on test tb auth" "list_all nonempty auth" "n = 1 \<or> list_all nonempty prev"
  shows "send test auth mx n prev =
     (if n > mx then Inr None
      else case find tb (cur_of auth n prev) of
        Some m \<Rightarrow> Inr (Some m)
      | None \<Rightarrow> send test auth mx (n + 1) (filter nonempty (cur_of auth n prev)))"
proof -
  have ne: "(\<lambda>m. decompo m \<noteq> []) = nonempty" by (simp add: nonempty_def fun_eq_iff)
  have e: "extend n (if n = 1 then move_seq [] # auth else auth) prev = Inr (cur_of auth n prev)"
    by (rule extend_cur_of [OF assms(2,3)])
  show ?thesis
    apply (subst send.simps)
    apply (simp only: e)
    apply (simp add: first_match_cur [OF assms(1)] ne split: option.splits)
    done
qed

lemma send_total:
  assumes "total_on test tb auth" "list_all nonempty auth"
  shows "n = 1 \<or> list_all nonempty prev \<Longrightarrow> \<exists>res. send test auth mx n prev = Inr res"
proof (induction "Suc mx - n" arbitrary: n prev)
  case 0
  then have "n > mx" by simp
  then show ?case using send_unfold [OF assms 0(2)] by simp
next
  case (Suc k)
  have step: "\<exists>res. send test auth mx (n + 1) (filter nonempty (cur_of auth n prev)) = Inr res"
  proof (rule Suc(1))
    show "k = Suc mx - (n + 1)" using Suc(2) by simp
    show "n + 1 = 1 \<or> list_all nonempty (filter nonempty (cur_of auth n prev))"
      by (simp add: list_all_iff)
  qed
  show ?case
    using send_unfold [OF assms Suc(3)] step by (auto split: option.splits)
qed

text \<open>Products of at most \<open>k\<close> authorized moves.\<close>
definition upto :: "move list \<Rightarrow> nat \<Rightarrow> move set" where
  "upto auth k = {compose_all ms | ms. set ms \<subseteq> set auth \<and> length ms \<le> k}"

lemma upto_mono: "j \<le> k \<Longrightarrow> upto auth j \<subseteq> upto auth k"
  by (auto simp: upto_def)

lemma upto_step: "m \<in> set auth \<Longrightarrow> g \<in> upto auth k \<Longrightarrow> mul m g \<in> upto auth (Suc k)"
proof -
  assume m: "m \<in> set auth" and "g \<in> upto auth k"
  then obtain ms where ms: "set ms \<subseteq> set auth" "length ms \<le> k" "g = compose_all ms"
    by (auto simp: upto_def)
  have "mul m g = compose_all (m # ms)" using ms by (simp add: compose_all_def)
  moreover have "set (m # ms) \<subseteq> set auth" "length (m # ms) \<le> Suc k" using m ms by simp_all
  ultimately show ?thesis unfolding upto_def by blast
qed

lemma wf_compose_all: "list_all wf_move ms \<Longrightarrow> wf_move (compose_all ms)"
  by (induction ms) (simp_all add: compose_all_def wf_move_seq wf_move_mul)

lemma upto_wf: "list_all wf_move auth \<Longrightarrow> g \<in> upto auth k \<Longrightarrow> wf_move g"
proof -
  assume a: "list_all wf_move auth" and "g \<in> upto auth k"
  then obtain ms where ms: "set ms \<subseteq> set auth" "g = compose_all ms"
    by (auto simp: upto_def)
  then have "list_all wf_move ms" using a by (auto simp: list_all_iff)
  then show ?thesis using ms wf_compose_all by simp
qed

lemma cur_of_upto:
  assumes "list_all wf_move auth" "set prev \<subseteq> upto auth k"
  shows "set (cur_of auth n prev) \<subseteq> upto auth (Suc k)"
proof
  fix x assume "x \<in> set (cur_of auth n prev)"
  then obtain m g where mg: "m \<in> set (move_seq [] # auth)" "g \<in> set prev" "x = mul m g"
    using cur_of_shape by blast
  then have g: "g \<in> upto auth k" using assms by auto
  show "x \<in> upto auth (Suc k)"
  proof (cases "m = move_seq []")
    case True
    then have "x = g" using mg upto_wf [OF assms(1) g] by (simp add: mul_id_left)
    then show ?thesis using g upto_mono [of k "Suc k" auth] by auto
  next
    case False
    then have "m \<in> set auth" using mg by simp
    then show ?thesis using g mg upto_step by simp
  qed
qed

lemma find_Some_tb: "find P xs = Some x \<Longrightarrow> P x \<and> x \<in> set xs"
  by (induction xs) (auto split: if_splits)

lemma send_sound:
  assumes "total_on test tb auth" "list_all nonempty auth" "list_all wf_move auth"
  shows "n = 1 \<or> list_all nonempty prev \<Longrightarrow> set prev \<subseteq> upto auth (n - 1) \<Longrightarrow> 1 \<le> n \<Longrightarrow>
    send test auth mx n prev = Inr (Some G) \<Longrightarrow> tb G \<and> G \<in> upto auth mx"
proof (induction "Suc mx - n" arbitrary: n prev)
  case 0
  then have "n > mx" by simp
  then show ?case using send_unfold [OF assms(1,2) 0(2)] 0(5) by simp
next
  case (Suc k)
  have le: "n \<le> mx" using Suc(2) by simp
  have cu: "set (cur_of auth n prev) \<subseteq> upto auth n"
    using cur_of_upto [OF assms(3) Suc(4)] Suc(5) by simp
  show ?case
  proof (cases "find tb (cur_of auth n prev)")
    case (Some x)
    then have "G = x" using send_unfold [OF assms(1,2) Suc(3)] le Suc(6) by simp
    then show ?thesis using find_Some_tb [OF Some] cu upto_mono [OF le, of auth] by auto
  next
    case None
    then have rec: "send test auth mx (n + 1) (filter nonempty (cur_of auth n prev)) = Inr (Some G)"
      using send_unfold [OF assms(1,2) Suc(3)] le Suc(6) by simp
    show ?thesis
    proof (rule Suc(1) [OF _ _ _ _ rec])
      show "k = Suc mx - (n + 1)" using Suc(2) by simp
      show "n + 1 = 1 \<or> list_all nonempty (filter nonempty (cur_of auth n prev))"
        by (simp add: list_all_iff)
      show "set (filter nonempty (cur_of auth n prev)) \<subseteq> upto auth (n + 1 - 1)"
        using cu by auto
      show "1 \<le> n + 1" by simp
    qed
  qed
qed

lemma mul_id_id: "mul (move_seq []) (move_seq []) = move_seq []"
  by (simp add: mul_id_left wf_move_seq)

lemma first_match_Some: "first_match test cur = Inr (Some G) \<Longrightarrow> test G = Inr True"
  by (induction cur) (auto split: sum.splits if_splits)

lemma send_result_test: "send test auth mx n prev = Inr (Some G) \<Longrightarrow> test G = Inr True"
proof (induction test auth mx n prev rule: send.induct)
  case (1 test auth maxMove n_combi prev)
  let ?e = "extend n_combi (if n_combi = 1 then move_seq [] # auth else auth) prev"
  note eq = send.simps [of test auth maxMove n_combi prev]
  show ?case
  proof (cases "n_combi > maxMove")
    case True
    then show ?thesis using "1.prems" eq by simp
  next
    case False
    show ?thesis
    proof (cases ?e)
      case (Inl e)
      then show ?thesis using "1.prems" False eq by simp
    next
      case (Inr cur)
      show ?thesis
      proof (cases "first_match test cur")
        case (Inl e)
        then show ?thesis using "1.prems" False Inr eq by simp
      next
        case r: (Inr res)
        show ?thesis
        proof (cases res)
          case None
          then have "send test auth maxMove (n_combi + 1) (filter (\<lambda>m. decompo m \<noteq> []) cur)
              = Inr (Some G)"
            using "1.prems" False Inr r eq by simp
          then show ?thesis using "1.IH" [OF False Inr] r None by simp
        next
          case (Some m)
          then have "m = G" using "1.prems" False Inr r eq by simp
          then show ?thesis using first_match_Some r Some by simp
        qed
      qed
    qed
  qed
qed

lemma send_identity:
  assumes "1 \<le> mx" "test (move_seq []) = Inr True"
  shows "send test auth mx 1 prev0 = Inr (Some (move_seq []))"
proof -
  have "extend 1 (move_seq [] # auth) prev0
      = Inr (move_seq [] # concat (map (\<lambda>m. map (mul m) prev0) auth))"
    by (simp add: extend_first extend_one_first prev0_def mul_id_id)
  then show ?thesis using assms by (subst send.simps) simp
qed

lemma mat_vec_eye: "mat_vec (eye n) [0..<n] = [0..<n]"
  using map_nth [of "[0..<n]"] by (simp add: mat_vec_def eye_def)

lemma test_8_id:
  "cl1 < 8 \<Longrightarrow> cl2 < 8 \<Longrightarrow> (cb1 = cl1 \<and> cb2 = cl2) \<or> (cb1 = cl2 \<and> cb2 = cl1) \<Longrightarrow>
   test_8 cb1 cb2 cl1 cl2 (move_seq []) = Inr True"
  by (auto simp: test_8_def mat_vec_eye get_def)

lemma test_8_slow_id:
  "cl1 < 8 \<Longrightarrow> cl2 < 8 \<Longrightarrow> test_8_slow cl1 cl2 cl1 cl2 (move_seq []) = Inr True"
  by (auto simp: test_8_slow_def mat_vec_eye get_def)

lemma test_12_id:
  "cl2 < 12 \<Longrightarrow> cl1 < cb3 \<Longrightarrow> cb3 < 12 \<Longrightarrow>
   test_12 cl1 cl2 cb3 cl1 cl2 (move_seq []) = Inr True"
  by (auto simp: test_12_def mat_vec_eye get_def)

lemma test_12_slow_id:
  "cl1 < 12 \<Longrightarrow> cl2 < 12 \<Longrightarrow> test_12_slow cl1 cl2 cl1 cl2 (move_seq []) = Inr True"
  by (auto simp: test_12_slow_def mat_vec_eye get_def)

lemma mat_inv_eye: "mat_inv (eye n) = eye n"
proof -
  have "mat_mul (mat_inv (eye n)) (eye n) = eye n"
    by (rule mat_mul_inv_left [OF perm_list_eye])
  moreover have "list_all (\<lambda>c. c < n) (mat_inv (eye n))"
    using perm_list_inv [OF perm_list_eye [of n]] by (simp add: perm_list_def)
  ultimately show ?thesis by (simp add: mat_mul_eye_right)
qed

lemma conjugate_id: "wf_move x \<Longrightarrow> conjugate x (move_seq []) = x"
  by (rule move_eqI)
    (simp_all add: conjugate_def mat_inv_eye wf_move_def perm_list_def
      mat_mul_eye_left mat_mul_eye_right)

text \<open>
  \<^bold>\<open>Claim C10.\<close>  A query whose target slots already hold the required cubies is answered
  by the identity move with the empty token list, whatever the authorized list, for any
  bound \<open>maxMove \<ge> 1\<close> (the defaults are 5 and 3): the first candidate of depth 1 is
  \<open>identity * identity\<close>, and it is tested first.  For \<open>send_8\<close> the two cubies may sit
  in the two slots in either order; for \<open>send_8_slow\<close> and \<open>send_12_slow\<close> in the given
  order; for \<open>send_12\<close> the third cubie has no slot of its own among the arguments, and
  the condition tested on the identity is that its label lies after \<open>cl1\<close>.  Conjugating
  a well-formed switcher by that result gives the switcher itself.
\<close>

theorem search_identity_query:
  "1 \<le> maxMove \<longrightarrow>
   (cl1 < 8 \<and> cl2 < 8 \<and> ((cb1 = cl1 \<and> cb2 = cl2) \<or> (cb1 = cl2 \<and> cb2 = cl1)) \<longrightarrow>
      send_8 cb1 cb2 cl1 cl2 auth maxMove 1 prev0 = Inr (Some (move_seq []))) \<and>
   (cl1 < 8 \<and> cl2 < 8 \<longrightarrow>
      send_8_slow cl1 cl2 cl1 cl2 auth maxMove 1 prev0 = Inr (Some (move_seq []))) \<and>
   (cl2 < 12 \<and> cl1 < cb3 \<and> cb3 < 12 \<longrightarrow>
      send_12 cl1 cl2 cb3 cl1 cl2 auth maxMove 1 prev0 = Inr (Some (move_seq []))) \<and>
   (cl1 < 12 \<and> cl2 < 12 \<longrightarrow>
      send_12_slow cl1 cl2 cl1 cl2 auth maxMove 1 prev0 = Inr (Some (move_seq []))) \<and>
   decompo (move_seq []) = [] \<and>
   (wf_move switcher \<longrightarrow> conjugate switcher (move_seq []) = switcher)"
proof (intro impI conjI)
  assume mx: "1 \<le> maxMove"
  show "send_8 cb1 cb2 cl1 cl2 auth maxMove 1 prev0 = Inr (Some (move_seq []))"
    if "cl1 < 8 \<and> cl2 < 8 \<and> ((cb1 = cl1 \<and> cb2 = cl2) \<or> (cb1 = cl2 \<and> cb2 = cl1))"
    unfolding send_8_def using that by (intro send_identity [OF mx] test_8_id) simp_all
  show "send_8_slow cl1 cl2 cl1 cl2 auth maxMove 1 prev0 = Inr (Some (move_seq []))"
    if "cl1 < 8 \<and> cl2 < 8"
    unfolding send_8_slow_def using that by (intro send_identity [OF mx] test_8_slow_id) simp_all
  show "send_12 cl1 cl2 cb3 cl1 cl2 auth maxMove 1 prev0 = Inr (Some (move_seq []))"
    if "cl2 < 12 \<and> cl1 < cb3 \<and> cb3 < 12"
    unfolding send_12_def using that by (intro send_identity [OF mx] test_12_id) simp_all
  show "send_12_slow cl1 cl2 cl1 cl2 auth maxMove 1 prev0 = Inr (Some (move_seq []))"
    if "cl1 < 12 \<and> cl2 < 12"
    unfolding send_12_slow_def using that by (intro send_identity [OF mx] test_12_slow_id) simp_all
  show "decompo (move_seq []) = []" by simp
  show "conjugate switcher (move_seq []) = switcher" if "wf_move switcher"
    using that by (rule conjugate_id)
qed

section \<open>Termination and the bound on the depth\<close>

definition quarter_turns :: "token list" where
  "quarter_turns = [''F'', ''f'', ''B'', ''b'', ''R'', ''r'', ''U'', ''u'', ''L'', ''l'', ''D'', ''d'']"

definition passes :: "(move \<Rightarrow> py_error + bool) \<Rightarrow> move \<Rightarrow> bool" where
  "passes test x \<longleftrightarrow> test x = Inr True"

definition sized :: "move \<Rightarrow> bool" where
  "sized x \<longleftrightarrow> length (A8 x) = 8 \<and> length (A12 x) = 12"

lemma total_on_passes:
  assumes "list_all wf_move auth" "\<And>x. sized x \<Longrightarrow> \<exists>t. test x = Inr t"
  shows "total_on test (passes test) auth"
  unfolding total_on_def
proof (intro allI impI)
  fix m g assume "m \<in> set (move_seq [] # auth)"
  then have "wf_move m" using assms(1) wf_move_seq by (auto simp: list_all_iff)
  then have "sized (mul m g)" by (simp add: sized_def wf_move_def perm_list_def)
  then obtain t where "test (mul m g) = Inr t" using assms(2) by blast
  then show "test (mul m g) = Inr (passes test (mul m g))" by (simp add: passes_def)
qed

lemma test_8_no_error:
  "cl1 < 8 \<Longrightarrow> cl2 < 8 \<Longrightarrow> sized x \<Longrightarrow> \<exists>t. test_8 cb1 cb2 cl1 cl2 x = Inr t"
  by (auto simp: test_8_def get_def mat_vec_def sized_def Let_def)

lemma test_8_slow_no_error:
  "cl1 < 8 \<Longrightarrow> cl2 < 8 \<Longrightarrow> sized x \<Longrightarrow> \<exists>t. test_8_slow cb1 cb2 cl1 cl2 x = Inr t"
  by (auto simp: test_8_slow_def get_def mat_vec_def sized_def Let_def)

lemma test_12_no_error:
  "cl1 < 12 \<Longrightarrow> cl2 < 12 \<Longrightarrow> sized x \<Longrightarrow> \<exists>t. test_12 cb1 cb2 cb3 cl1 cl2 x = Inr t"
  by (auto simp: test_12_def get_def mat_vec_def sized_def Let_def)

lemma test_12_slow_no_error:
  "cl1 < 12 \<Longrightarrow> cl2 < 12 \<Longrightarrow> sized x \<Longrightarrow> \<exists>t. test_12_slow cb1 cb2 cl1 cl2 x = Inr t"
  by (auto simp: test_12_slow_def get_def mat_vec_def sized_def Let_def)

lemma prev0_upto: "set prev0 \<subseteq> upto auth 0"
proof -
  have "move_seq [] = compose_all []" by (simp add: compose_all_def)
  then show ?thesis unfolding upto_def prev0_def by auto
qed

text \<open>
  What a bounded search owes its caller: it returns (a move or \<open>None\<close>, never an
  exception); a returned move is a product of at most \<open>maxMove\<close> authorized moves that
  passes the test; and when no such product passes the test the result is \<open>None\<close>.
\<close>

definition search_spec :: "py_error + move option \<Rightarrow> (move \<Rightarrow> py_error + bool) \<Rightarrow> move list \<Rightarrow> nat \<Rightarrow> bool" where
  "search_spec result test auth maxMove \<longleftrightarrow>
     (\<exists>res. result = Inr res) \<and>
     (\<forall>G. result = Inr (Some G) \<longrightarrow>
        (\<exists>ms. set ms \<subseteq> set auth \<and> length ms \<le> maxMove \<and> G = compose_all ms \<and> test G = Inr True)) \<and>
     ((\<forall>ms. set ms \<subseteq> set auth \<longrightarrow> length ms \<le> maxMove \<longrightarrow> test (compose_all ms) \<noteq> Inr True) \<longrightarrow>
        result = Inr None)"

lemma send_bounded:
  assumes wf: "list_all wf_move auth" and ne: "list_all nonempty auth"
    and noerr: "\<And>x. sized x \<Longrightarrow> \<exists>t. test x = Inr t"
  shows "search_spec (send test auth mx 1 prev0) test auth mx"
proof -
  note tot = total_on_passes [OF wf noerr]
  have one: "(1::nat) = 1 \<or> list_all nonempty prev0" by simp
  have sub: "set prev0 \<subseteq> upto auth (1 - 1)" using prev0_upto [of auth] by simp
  have ex: "\<exists>res. send test auth mx 1 prev0 = Inr res"
    by (rule send_total [OF tot ne one])
  have snd: "\<exists>ms. set ms \<subseteq> set auth \<and> length ms \<le> mx \<and> G = compose_all ms \<and> test G = Inr True"
    if "send test auth mx 1 prev0 = Inr (Some G)" for G
  proof -
    have "passes test G \<and> G \<in> upto auth mx"
      by (rule send_sound [OF tot ne wf one sub order_refl that])
    then show ?thesis by (auto simp: passes_def upto_def)
  qed
  have none: "send test auth mx 1 prev0 = Inr None"
    if h: "\<forall>ms. set ms \<subseteq> set auth \<longrightarrow> length ms \<le> mx \<longrightarrow> test (compose_all ms) \<noteq> Inr True"
  proof -
    obtain res where res: "send test auth mx 1 prev0 = Inr res" using ex by blast
    show ?thesis
    proof (cases res)
      case None
      then show ?thesis using res by simp
    next
      case (Some G)
      then show ?thesis using snd [of G] res h by blast
    qed
  qed
  show ?thesis unfolding search_spec_def using ex snd none by blast
qed

section \<open>Powers, inverses and the solved state\<close>

lemma wf_fund_l: "list_all wf_move fund_l"
  by code_simp

lemma nonempty_fund_l: "list_all nonempty fund_l"
  by code_simp

lemma wf_F: "wf_move F"
  by code_simp

lemma identity_state: "mat_vec (block_diag (block_diag (block_diag (eye 8) (eye 12)) (eye 24)) (eye 24)) X = X"
  by code_simp

lemma state_of_identity:
  "A8 x = eye 8 \<Longrightarrow> A12 x = eye 12 \<Longrightarrow> S3 x = eye 24 \<Longrightarrow> S2 x = eye 24 \<Longrightarrow>
   mat_vec (make_M x) X = X"
  by (simp add: make_M_def identity_state)

text \<open>
  \<^bold>\<open>Claim C8.\<close>  For every well-formed move \<open>m\<close>, \<open>m * m**(-1)\<close> acts as the identity: its
  corner and edge position matrices and its corner and edge orientation matrices are
  identities, so that applied to the solved state it leaves every position in place and
  every orientation value at zero.
\<close>

theorem mul_inverse_identity:
  "wf_move m \<Longrightarrow>
   pow m (- 1) = Inr (inverse_move m) \<and>
   A8 (mul m (inverse_move m)) = eye 8 \<and> A12 (mul m (inverse_move m)) = eye 12 \<and>
   S3 (mul m (inverse_move m)) = eye 24 \<and> S2 (mul m (inverse_move m)) = eye 24 \<and>
   mat_vec (make_M (mul m (inverse_move m))) X = X"
  using mul_inverse_right_fields [of m] pow_cases(2) [of m]
  by (simp add: state_of_identity del: mul_sel inverse_move_sel)

theorem mul_inverse_identity_witness:
  "wf_move F \<and> pow F (- 1) = Inr f \<and>
   A8 (mul F f) = [0..<8] \<and> A12 (mul F f) = [0..<12] \<and>
   S3 (mul F f) = [0..<24] \<and> S2 (mul F f) = [0..<24] \<and>
   mat_vec (make_M (mul F f)) X = X \<and> decompo (mul F f) = [''f'', ''F'']"
proof -
  have "decompo (mul F f) = [''f'', ''F'']" by code_simp
  then show ?thesis
    using mul_inverse_identity [OF wf_F] wf_F by (simp add: f_def eye_def del: mul_sel)
qed

text \<open>
  \<^bold>\<open>Claim C9.\<close>  The empty token list replays to the solved state \<open>X\<close>, and \<open>solve\<close> on
  the solved state returns the empty token list: no phase finds a defect.
\<close>

theorem solve_solved_state:
  "move_list_to_state [] = Inr X \<and> solve X = Inr []"
  by code_simp

theorem search_identity_query_witness:
  "send_8 1 3 1 3 fund_l maxMove_8 1 prev0 = Inr (Some (move_seq [])) \<and>
   send_8 1 3 3 1 fund_l maxMove_8 1 prev0 = Inr (Some (move_seq [])) \<and>
   send_8_slow 0 2 0 2 fund_l maxMove_8 1 prev0 = Inr (Some (move_seq [])) \<and>
   send_12 0 3 11 0 3 fund_l maxMove_12 1 prev0 = Inr (Some (move_seq [])) \<and>
   send_12_slow 0 3 0 3 fund_l maxMove_12 1 prev0 = Inr (Some (move_seq [])) \<and>
   conjugate M20 (move_seq []) = M20"
proof -
  have wf: "wf_move M20" by code_simp
  have m8: "1 \<le> maxMove_8" and m12: "1 \<le> maxMove_12"
    by (simp_all add: maxMove_8_def maxMove_12_def)
  show ?thesis
    using search_identity_query [of maxMove_8 1 3 1 3 fund_l 0 M20]
      search_identity_query [of maxMove_8 3 1 1 3 fund_l 0 M20]
      search_identity_query [of maxMove_8 0 2 0 2 fund_l 0 M20]
      search_identity_query [of maxMove_12 0 3 0 3 fund_l 11 M20]
      wf m8 m12
    by simp
qed

section \<open>What a returned move achieves, and what is pruned\<close>

lemma test_12_True:
  assumes "test_12 cb1 cb2 cb3 cl1 cl2 m = Inr True"
  shows "let y = mat_vec (A12 m) [0..<12] in
     cl1 < length y \<and> cl2 < length y \<and> y ! cl1 = cb1 \<and> y ! cl2 = cb2 \<and>
     (\<exists>k. cl1 < k \<and> k < length y \<and> y ! k = cb3)"
proof -
  define y where "y = mat_vec (A12 m) [0..<12]"
  have t: "cl1 < length y \<and> cl2 < length y \<and> y ! cl1 = cb1 \<and> y ! cl2 = cb2 \<and>
      cb3 \<in> set (drop (cl1 + 1) y)"
    using assms unfolding test_12_def y_def [symmetric]
    by (auto simp: get_def Let_def split: if_splits)
  then obtain i where i: "i < length (drop (cl1 + 1) y)" "drop (cl1 + 1) y ! i = cb3"
    by (auto simp: in_set_conv_nth)
  then have "cl1 < cl1 + 1 + i \<and> cl1 + 1 + i < length y \<and> y ! (cl1 + 1 + i) = cb3"
    by auto
  then have "\<exists>k. cl1 < k \<and> k < length y \<and> y ! k = cb3" by blast
  then show ?thesis using t unfolding y_def [symmetric] by (simp add: Let_def)
qed

text \<open>
  \<^bold>\<open>Claim C4\<close>, as amended.  Whenever the 3-label edge search returns a move, in the state
  that the move produces from the solved cube slot \<open>cl1\<close> holds cubie \<open>cb1\<close>, slot \<open>cl2\<close>
  holds cubie \<open>cb2\<close>, and cubie \<open>cb3\<close> sits in some slot after \<open>cl1\<close>.  The function has
  two target slots; the third cubie has no slot of its own.
\<close>

theorem send_12_places:
  "send_12 cb1 cb2 cb3 cl1 cl2 auth maxMove n_combi prev = Inr (Some m) \<Longrightarrow>
   (let y = mat_vec (A12 m) [0..<12] in
     cl1 < length y \<and> cl2 < length y \<and> y ! cl1 = cb1 \<and> y ! cl2 = cb2 \<and>
     (\<exists>k. cl1 < k \<and> k < length y \<and> y ! k = cb3))"
  unfolding send_12_def by (rule test_12_True) (rule send_result_test)

lemma send_12_lb: "send_12 0 3 11 1 7 [l, b] maxMove_12 1 prev0 = Inr (Some (mul b (mul l (move_seq []))))"
  by code_simp

lemma send_12_Ul: "send_12 0 3 11 1 7 [U, l] maxMove_12 1 prev0 = Inr (Some (mul l (mul U (move_seq []))))"
  by code_simp

theorem send_12_places_witness:
  "send_12 0 3 11 1 7 [l, b] maxMove_12 1 prev0 = Inr (Some (mul b (mul l (move_seq [])))) \<and>
   mat_vec (A12 (mul b (mul l (move_seq [])))) [0..<12] = [2, 0, 5, 1, 4, 10, 6, 3, 8, 9, 7, 11] \<and>
   (let y = mat_vec (A12 (mul b (mul l (move_seq [])))) [0..<12] in
     1 < length y \<and> 7 < length y \<and> y ! 1 = 0 \<and> y ! 7 = 3 \<and>
     (\<exists>k. 1 < k \<and> k < length y \<and> y ! k = 11))"
proof -
  have "mat_vec (A12 (mul b (mul l (move_seq [])))) [0..<12] = [2, 0, 5, 1, 4, 10, 6, 3, 8, 9, 7, 11]"
    by code_simp
  then show ?thesis using send_12_places [OF send_12_lb] send_12_lb by simp
qed

text \<open>
  The claim as stated fails: the same three cubies and the same two slots, searched over
  two authorized lists, end with cubie 11 in slot 11 in one result and in slot 6 in the
  other.  No argument of the search fixes the slot of the third cubie.
\<close>

theorem send_12_third_slot_counterexample:
  "send_12 0 3 11 1 7 [l, b] maxMove_12 1 prev0 = Inr (Some (mul b (mul l (move_seq [])))) \<and>
   send_12 0 3 11 1 7 [U, l] maxMove_12 1 prev0 = Inr (Some (mul l (mul U (move_seq [])))) \<and>
   mat_vec (A12 (mul b (mul l (move_seq [])))) [0..<12] = [2, 0, 5, 1, 4, 10, 6, 3, 8, 9, 7, 11] \<and>
   mat_vec (A12 (mul l (mul U (move_seq [])))) [0..<12] = [2, 0, 6, 1, 4, 5, 11, 3, 8, 9, 10, 7]"
proof -
  have "mat_vec (A12 (mul b (mul l (move_seq [])))) [0..<12] = [2, 0, 5, 1, 4, 10, 6, 3, 8, 9, 7, 11]"
    by code_simp
  moreover have "mat_vec (A12 (mul l (mul U (move_seq [])))) [0..<12] = [2, 0, 6, 1, 4, 5, 11, 3, 8, 9, 10, 7]"
    by code_simp
  ultimately show ?thesis using send_12_lb send_12_Ul by simp
qed

subsection \<open>Pruning\<close>

text \<open>A move whose decomposition is a non-empty list of quarter-turn symbols.\<close>

definition turns :: "move \<Rightarrow> bool" where
  "turns m \<longleftrightarrow> decompo m \<noteq> [] \<and> list_all (\<lambda>t. t \<in> set quarter_turns) (decompo m)"

lemma cancel_quarter_turns:
  "list_all (\<lambda>a. list_all (\<lambda>g.
      ((upper a = a \<and> g = lower a) \<or> (lower a = a \<and> g = upper a) \<or> a = g)
        = (g = a \<or> g = swap_case a)) quarter_turns) quarter_turns"
  by code_simp

lemma turns_nonempty: "turns m \<Longrightarrow> nonempty m"
  by (simp add: turns_def nonempty_def)

lemma cancel_b_turns:
  assumes "turns m" "turns g"
  shows "cancel_b m g \<longleftrightarrow>
    last (decompo g) = hd (decompo m) \<or> last (decompo g) = swap_case (hd (decompo m))"
proof -
  have "hd (decompo m) \<in> set quarter_turns" "last (decompo g) \<in> set quarter_turns"
    using assms by (auto simp: turns_def list_all_iff)
  then show ?thesis
    using cancel_quarter_turns unfolding cancel_b_def Let_def list_all_iff by blast
qed

lemma filter_cong_set: "(\<And>x. x \<in> set xs \<Longrightarrow> P x = Q x) \<Longrightarrow> filter P xs = filter Q xs"
  by (induction xs) auto

text \<open>
  \<^bold>\<open>Claim C5\<close>, as amended.  At every depth after the first, for authorized moves and
  surviving candidates made of quarter-turn symbols, the candidates built are exactly
  the products \<open>m * g\<close>, in loop order, for which the first token of \<open>m\<close> is neither the
  face-inverse of the last token of \<open>g\<close> nor that token itself: besides the
  cancellations, the repetition of the same quarter turn is pruned.
\<close>

theorem extend_prunes_same_face:
  "n_combi \<noteq> 1 \<Longrightarrow> list_all turns auth \<Longrightarrow> list_all turns prev \<Longrightarrow>
   extend n_combi auth prev =
     Inr (concat (map (\<lambda>m. map (mul m)
       (filter (\<lambda>g. last (decompo g) \<noteq> swap_case (hd (decompo m)) \<and>
                    last (decompo g) \<noteq> hd (decompo m)) prev)) auth))"
proof -
  assume n: "n_combi \<noteq> 1" and a: "list_all turns auth" and p: "list_all turns prev"
  have "list_all nonempty auth" "list_all nonempty prev"
    using a p turns_nonempty by (auto simp: list_all_iff)
  then have "extend n_combi auth prev =
      Inr (concat (map (\<lambda>m. map (mul m) (filter (\<lambda>g. \<not> cancel_b m g) prev)) auth))"
    using n by (simp add: extend_later)
  moreover have "map (\<lambda>m. map (mul m) (filter (\<lambda>g. \<not> cancel_b m g) prev)) auth =
      map (\<lambda>m. map (mul m)
       (filter (\<lambda>g. last (decompo g) \<noteq> swap_case (hd (decompo m)) \<and>
                    last (decompo g) \<noteq> hd (decompo m)) prev)) auth"
  proof (rule map_cong [OF refl])
    fix m assume "m \<in> set auth"
    then have m: "turns m" using a by (simp add: list_all_iff)
    have "filter (\<lambda>g. \<not> cancel_b m g) prev =
        filter (\<lambda>g. last (decompo g) \<noteq> swap_case (hd (decompo m)) \<and>
                    last (decompo g) \<noteq> hd (decompo m)) prev"
    proof (rule filter_cong_set)
      fix g assume "g \<in> set prev"
      then have "turns g" using p by (simp add: list_all_iff)
      then show "(\<not> cancel_b m g) =
          (last (decompo g) \<noteq> swap_case (hd (decompo m)) \<and> last (decompo g) \<noteq> hd (decompo m))"
        using cancel_b_turns [OF m] by blast
    qed
    then show "map (mul m) (filter (\<lambda>g. \<not> cancel_b m g) prev) =
        map (mul m) (filter (\<lambda>g. last (decompo g) \<noteq> swap_case (hd (decompo m)) \<and>
                    last (decompo g) \<noteq> hd (decompo m)) prev)"
      by simp
  qed
  ultimately show ?thesis by simp
qed

theorem extend_prunes_same_face_witness:
  "list_all turns [F, r] \<and> list_all turns [F, f, U] \<and>
   extend 2 [F, r] [F, f, U] = Inr [mul F U, mul r F, mul r f, mul r U]"
proof -
  have t: "list_all turns [F, r]" "list_all turns [F, f, U]" by code_simp+
  have "concat (map (\<lambda>m. map (mul m)
       (filter (\<lambda>g. last (decompo g) \<noteq> swap_case (hd (decompo m)) \<and>
                    last (decompo g) \<noteq> hd (decompo m)) [F, f, U])) [F, r])
      = [mul F U, mul r F, mul r f, mul r U]"
    by code_simp
  then show ?thesis using extend_prunes_same_face [OF _ t, of 2] t by simp
qed

text \<open>
  The claim as stated fails: \<open>F\<close> is not composed onto the candidate \<open>F\<close>, although the
  token \<open>F\<close> is not the face-inverse of the token \<open>F\<close>.
\<close>

theorem extend_same_token_counterexample:
  "extend 2 [F] [F] = Inr [] \<and> decompo F = [''F''] \<and> swap_case ''F'' = ''f''"
  by code_simp

section \<open>Replaying a decomposition\<close>

lemma mat_inv_unique:
  assumes "perm_list n P" "perm_list n Q" "mat_mul P Q = eye n"
  shows "Q = mat_inv P"
proof -
  have "Q = mat_mul (eye n) Q" using assms(2) by (simp add: mat_mul_eye_left perm_list_def)
  also have "\<dots> = mat_mul (mat_mul (mat_inv P) P) Q" using assms(1) by (simp add: mat_mul_inv_left)
  also have "\<dots> = mat_mul (mat_inv P) (mat_mul P Q)"
    using perm_list_inv [OF assms(1)] assms(1) by (simp add: mat_mul_assoc perm_list_def)
  also have "\<dots> = mat_inv P"
    using perm_list_inv [OF assms(1)] assms(3) by (simp add: mat_mul_eye_right perm_list_def)
  finally show ?thesis .
qed

lemma mat_inv_mul:
  assumes "perm_list n P" "perm_list n Q"
  shows "mat_inv (mat_mul P Q) = mat_mul (mat_inv Q) (mat_inv P)"
proof -
  note pi = perm_list_inv [OF assms(1)] and qi = perm_list_inv [OF assms(2)]
  have lp: "list_all (\<lambda>c. c < length Q) P" using assms by (simp add: perm_list_def)
  have lq: "list_all (\<lambda>c. c < length (mat_inv Q)) Q" using assms by (simp add: perm_list_def)
  have "mat_mul (mat_mul P Q) (mat_mul (mat_inv Q) (mat_inv P))
      = mat_mul P (mat_mul Q (mat_mul (mat_inv Q) (mat_inv P)))"
    by (rule mat_mul_assoc [OF lp])
  also have "\<dots> = mat_mul P (mat_mul (mat_mul Q (mat_inv Q)) (mat_inv P))"
    by (simp only: mat_mul_assoc [OF lq])
  also have "\<dots> = mat_mul P (mat_mul (eye n) (mat_inv P))"
    using assms(2) by (simp only: mat_mul_inv_right)
  also have "\<dots> = mat_mul P (mat_inv P)"
    using pi by (simp add: mat_mul_eye_left perm_list_def)
  also have "\<dots> = eye n" using assms(1) by (rule mat_mul_inv_right)
  finally have "mat_mul (mat_mul P Q) (mat_mul (mat_inv Q) (mat_inv P)) = eye n" .
  then show ?thesis
    using mat_inv_unique [OF perm_list_mul [OF assms] perm_list_mul [OF qi pi]] by simp
qed

lemma inverse_move_mul:
  "wf_move x \<Longrightarrow> wf_move y \<Longrightarrow> inverse_move (mul x y) = mul (inverse_move y) (inverse_move x)"
  by (rule move_eqI)
    (simp_all add: wf_move_def mat_inv_mul [of 8] mat_inv_mul [of 12] mat_inv_mul [of 24])

lemma inverse_move_id: "inverse_move (move_seq []) = move_seq []"
  by (rule move_eqI) (simp_all add: mat_inv_eye)

text \<open>The dictionary \<open>fund\<close>: its keys are the twelve quarter-turn symbols.\<close>

lemma fund_table:
  "list_all (\<lambda>t. case fund t of None \<Rightarrow> False
      | Some g \<Rightarrow> wf_move g \<and> decompo g = [t] \<and> swap_case t \<in> set quarter_turns \<and>
          fund (swap_case t) = Some (inverse_move g)) quarter_turns"
  by code_simp

lemma fund_keys: "fund t = Some g \<Longrightarrow> t \<in> set quarter_turns"
  by (simp add: fund_def quarter_turns_def split: if_splits)

lemma fund_quarter_turn:
  assumes "t \<in> set quarter_turns"
  obtains g where "fund t = Some g" "wf_move g" "decompo g = [t]"
    "swap_case t \<in> set quarter_turns" "fund (swap_case t) = Some (inverse_move g)"
  using assms fund_table unfolding list_all_iff by (fastforce split: option.splits)

lemma replay_append:
  "replay (xs @ ys) M = (case replay xs M of Inl e \<Rightarrow> Inl e | Inr M' \<Rightarrow> replay ys M')"
  by (induction xs arbitrary: M) (auto split: option.splits)

lemma replay_product:
  "list_all (\<lambda>t. t \<in> set quarter_turns) ts \<Longrightarrow>
   \<exists>res. wf_move res \<and> (\<forall>M. wf_move M \<longrightarrow> replay ts M = Inr (mul res M))"
proof (induction ts)
  case Nil
  show ?case
    by (rule exI [of _ "move_seq []"]) (simp add: wf_move_seq mul_id_left)
next
  case (Cons t ts)
  then obtain res where res: "wf_move res" "\<And>M. wf_move M \<Longrightarrow> replay ts M = Inr (mul res M)"
    by auto
  from Cons.prems obtain g where g: "fund t = Some g" "wf_move g"
    using fund_quarter_turn [of t] by auto
  show ?case
  proof (intro exI conjI allI impI)
    show "wf_move (mul res g)" using res g by (simp add: wf_move_mul)
    fix M assume "wf_move M"
    then show "replay (t # ts) M = Inr (mul (mul res g) M)"
      using res g by (simp add: wf_move_mul mul_assoc)
  qed
qed

text \<open>A move that its own decomposition reproduces.\<close>

definition faithful :: "move \<Rightarrow> bool" where
  "faithful x \<longleftrightarrow> wf_move x \<and> list_all (\<lambda>t. t \<in> set quarter_turns) (decompo x) \<and>
     replay (decompo x) (move_seq []) = Inr x"

lemma faithful_replay:
  assumes "faithful x" "wf_move M"
  shows "replay (decompo x) M = Inr (mul x M)"
proof -
  obtain res where res: "wf_move res" "\<And>M. wf_move M \<Longrightarrow> replay (decompo x) M = Inr (mul res M)"
    using replay_product [of "decompo x"] assms(1) unfolding faithful_def by blast
  have "replay (decompo x) (move_seq []) = Inr res"
    using res(2) [OF wf_move_seq] res(1) by (simp add: mul_id_right)
  then have "res = x" using assms(1) by (simp add: faithful_def)
  then show ?thesis using res(2) [OF assms(2)] by simp
qed

lemma faithful_id: "faithful (move_seq [])"
  by (simp add: faithful_def wf_move_seq)

lemma faithful_fund: "fund t = Some g \<Longrightarrow> faithful g"
proof -
  assume h: "fund t = Some g"
  then have t: "t \<in> set quarter_turns" by (rule fund_keys)
  then obtain g' where g': "fund t = Some g'" "wf_move g'" "decompo g' = [t]"
    by (rule fund_quarter_turn)
  then have "g' = g" using h by simp
  then show ?thesis using g' t h by (simp add: faithful_def mul_id_right)
qed

lemma faithful_mul: "faithful x \<Longrightarrow> faithful y \<Longrightarrow> faithful (mul x y)"
proof -
  assume x: "faithful x" and y: "faithful y"
  have "replay (decompo y @ decompo x) (move_seq []) = Inr (mul x y)"
    using y faithful_replay [OF x, of y] by (simp add: replay_append faithful_def)
  then show ?thesis using x y by (simp add: faithful_def wf_move_mul)
qed

lemma replay_inverse:
  "list_all (\<lambda>t. t \<in> set quarter_turns) ts \<Longrightarrow> replay ts (move_seq []) = Inr res \<Longrightarrow> wf_move res \<Longrightarrow>
   list_all (\<lambda>t. t \<in> set quarter_turns) (map swap_case (rev ts)) \<and>
   replay (map swap_case (rev ts)) (move_seq []) = Inr (inverse_move res)"
proof (induction ts arbitrary: res)
  case Nil
  then show ?case by (auto simp: inverse_move_id)
next
  case (Cons t ts)
  from Cons.prems(1) have ts: "list_all (\<lambda>t. t \<in> set quarter_turns) ts" and t: "t \<in> set quarter_turns"
    by simp_all
  obtain g where g: "fund t = Some g" "wf_move g" "swap_case t \<in> set quarter_turns"
    "fund (swap_case t) = Some (inverse_move g)"
    using t by (rule fund_quarter_turn)
  obtain r where r: "wf_move r" "\<And>M. wf_move M \<Longrightarrow> replay ts M = Inr (mul r M)"
    using replay_product [OF ts] by blast
  have rid: "replay ts (move_seq []) = Inr r"
    using r(2) [OF wf_move_seq] r(1) by (simp add: mul_id_right)
  have res: "res = mul r g"
    using Cons.prems(2) g r(2) [of "mul g (move_seq [])"] by (simp add: wf_move_mul wf_move_seq mul_id_right)
  note ih = Cons.IH [OF ts rid r(1)]
  have "replay (map swap_case (rev ts) @ [swap_case t]) (move_seq [])
      = Inr (mul (inverse_move g) (inverse_move r))"
    using ih g by (simp add: replay_append)
  then show ?case using ih g r res by (simp add: inverse_move_mul)
qed

lemma faithful_inverse: "faithful x \<Longrightarrow> faithful (inverse_move x)"
  using replay_inverse [of "decompo x" x] by (simp add: faithful_def wf_move_inverse)

lemma faithful_repeat: "faithful x \<Longrightarrow> faithful (repeat_mul x n)"
proof (induction x n rule: repeat_mul.induct)
  case (1 x)
  then show ?case by (simp add: faithful_id)
next
  case (2 x)
  then show ?case by simp
next
  case (3 x n)
  then show ?case by (simp add: faithful_mul)
qed

lemma faithful_pow: "faithful x \<Longrightarrow> pow x n = Inr y \<Longrightarrow> faithful y"
proof -
  assume x: "faithful x" and p: "pow x n = Inr y"
  consider "n = 0" | "n = - 1" | "1 \<le> n" | "n < - 1" by linarith
  then show ?thesis
  proof cases
    case 1
    then show ?thesis using p faithful_id by (simp add: pow_cases)
  next
    case 2
    then show ?thesis using p faithful_inverse [OF x] by (simp add: pow_cases)
  next
    case 3
    then show ?thesis using p faithful_repeat [OF x, of "nat n"] by (auto simp: pow_cases)
  next
    case 4
    then show ?thesis using p by (simp add: pow_cases)
  qed
qed

text \<open>
  The moves built from the twelve fundamental moves by \<open>__mul__\<close> and \<open>__pow__\<close> (the
  exponent \<open>-1\<close> gives the inverse, 0 the identity).
\<close>

inductive_set moves :: "move set" where
  fundamental: "fund t = Some g \<Longrightarrow> g \<in> moves"
| product: "x \<in> moves \<Longrightarrow> y \<in> moves \<Longrightarrow> mul x y \<in> moves"
| power: "x \<in> moves \<Longrightarrow> pow x n = Inr y \<Longrightarrow> y \<in> moves"

lemma moves_faithful: "m \<in> moves \<Longrightarrow> faithful m"
  by (induction rule: moves.induct) (auto intro: faithful_fund faithful_mul faithful_pow)

text \<open>
  \<^bold>\<open>Claim C2.\<close>  For every move built from the twelve fundamental moves by composition,
  inverse and integer powers, the loop of \<open>move_list_to_state\<close> run on the move's
  decomposition, from the identity, rebuilds the move itself: the same four matrices
  (and the same decomposition).  Hence \<open>move_list_to_state\<close> of the decomposition is the
  move's action on the solved state.
\<close>

theorem replay_roundtrip:
  "m \<in> moves \<Longrightarrow>
   replay (decompo m) (move_seq []) = Inr m \<and>
   move_list_to_state (decompo m) = Inr (mat_vec (make_M m) X)"
proof -
  assume "m \<in> moves"
  then have "replay (decompo m) (move_seq []) = Inr m"
    using moves_faithful by (simp add: faithful_def)
  then show ?thesis by (simp add: move_list_to_state_def)
qed

theorem replay_roundtrip_witness:
  "mul F (mul r F) \<in> moves \<and> decompo (mul F (mul r F)) = [''F'', ''r'', ''F''] \<and>
   replay [''F'', ''r'', ''F''] (move_seq []) = Inr (mul F (mul r F)) \<and>
   move_list_to_state [''F'', ''r'', ''F''] = Inr (mat_vec (make_M (mul F (mul r F))) X)"
proof -
  have "fund ''F'' = Some F" "fund ''r'' = Some r" by (simp_all add: fund_def)
  then have m: "mul F (mul r F) \<in> moves" by (intro moves.product moves.fundamental)
  have d: "decompo (mul F (mul r F)) = [''F'', ''r'', ''F'']" by code_simp
  show ?thesis using replay_roundtrip [OF m] m d by simp
qed

section \<open>The sign of a permutation\<close>

text \<open>The pairs \<open>(i, j)\<close> with \<open>i < j < n\<close>.\<close>

definition pairs :: "nat \<Rightarrow> (nat \<times> nat) list" where
  "pairs n = concat (map (\<lambda>j. map (\<lambda>i. (i, j)) [0..<j]) [0..<n])"

text \<open>The sign of a list without repetition: one factor \<open>-1\<close> for each inversion.\<close>

definition sign :: "nat list \<Rightarrow> int" where
  "sign p = prod_list (map (\<lambda>(i, j). if p ! i < p ! j then 1 else - 1) (pairs (length p)))"

lemma set_pairs: "set (pairs n) = {(i, j). i < j \<and> j < n}"
  by (auto simp: pairs_def)

lemma distinct_pairs: "distinct (pairs n)"
  unfolding pairs_def
proof (rule distinct_concat)
  have "inj_on (\<lambda>j. map (\<lambda>i. (i, j)) [0..<j]) (set [0..<n])"
  proof (rule inj_onI)
    fix x y :: nat
    assume "map (\<lambda>i. (i, x)) [0..<x] = map (\<lambda>i. (i, y)) [0..<y]"
    then have "length (map (\<lambda>i. (i, x)) [0..<x]) = length (map (\<lambda>i. (i, y)) [0..<y])"
      by (rule arg_cong)
    then show "x = y" by simp
  qed
  then show "distinct (map (\<lambda>j. map (\<lambda>i. (i, j)) [0..<j]) [0..<n])"
    by (simp add: distinct_map)
  show "\<And>ys. ys \<in> set (map (\<lambda>j. map (\<lambda>i. (i, j)) [0..<j]) [0..<n]) \<Longrightarrow> distinct ys"
    by (auto simp: distinct_map inj_on_def)
  show "\<And>ys zs. ys \<in> set (map (\<lambda>j. map (\<lambda>i. (i, j)) [0..<j]) [0..<n]) \<Longrightarrow>
      zs \<in> set (map (\<lambda>j. map (\<lambda>i. (i, j)) [0..<j]) [0..<n]) \<Longrightarrow> ys \<noteq> zs \<Longrightarrow>
      set ys \<inter> set zs = {}"
    by auto
qed

definition inv_sgn :: "nat list \<Rightarrow> nat \<times> nat \<Rightarrow> int" where
  "inv_sgn p = (\<lambda>(i, j). if p ! i < p ! j then 1 else - 1)"

definition below :: "nat \<Rightarrow> (nat \<times> nat) set" where
  "below n = {(i, j). i < j \<and> j < n}"

lemma sign_prod: "sign p = prod (inv_sgn p) (below (length p))"
proof -
  have "prod_list (map (inv_sgn p) (pairs (length p))) = prod (inv_sgn p) (set (pairs (length p)))"
    using prod.distinct_set_conv_list [OF distinct_pairs, of "inv_sgn p" "length p"] by simp
  then show ?thesis by (simp add: sign_def inv_sgn_def set_pairs below_def)
qed

lemma finite_below: "finite (below n)"
proof -
  have "below n \<subseteq> {..<n} \<times> {..<n}" by (auto simp: below_def)
  then show ?thesis by (rule finite_subset) simp
qed

text \<open>The pair of the images, in increasing order.\<close>

definition img :: "nat list \<Rightarrow> nat \<times> nat \<Rightarrow> nat \<times> nat" where
  "img p = (\<lambda>(i, j). (min (p ! i) (p ! j), max (p ! i) (p ! j)))"

lemma img_below:
  assumes "perm_list n p"
  shows "img p ` below n = below n"
proof -
  have d: "distinct p" and l: "length p = n" using assms by (simp_all add: perm_list_def)
  have lt: "\<And>i. i < n \<Longrightarrow> p ! i < n" using assms by (rule perm_list_nth_less)
  have sub: "img p ` below n \<subseteq> below n"
  proof
    fix x assume "x \<in> img p ` below n"
    then obtain i j where ij: "i < j" "j < n" "x = img p (i, j)" by (auto simp: below_def)
    then have "p ! i \<noteq> p ! j" using d l by (simp add: nth_eq_iff_index_eq)
    then show "x \<in> below n" using ij lt [of i] lt [of j] by (auto simp: below_def img_def)
  qed
  have inj: "inj_on (img p) (below n)"
  proof (rule inj_onI)
    fix x y assume x: "x \<in> below n" and y: "y \<in> below n" and e: "img p x = img p y"
    obtain i j where ij: "x = (i, j)" "i < j" "j < n" using x by (auto simp: below_def)
    obtain k m where km: "y = (k, m)" "k < m" "m < n" using y by (auto simp: below_def)
    have "{p ! i, p ! j} = {p ! k, p ! m}"
      using e ij km by (auto simp: img_def min_def max_def split: if_splits)
    then have "(p ! i = p ! k \<and> p ! j = p ! m) \<or> (p ! i = p ! m \<and> p ! j = p ! k)"
      by (auto simp: doubleton_eq_iff)
    then have "(i = k \<and> j = m) \<or> (i = m \<and> j = k)"
      using d l ij km by (simp add: nth_eq_iff_index_eq)
    then show "x = y" using ij km by auto
  qed
  have "card (img p ` below n) = card (below n)" using inj by (rule card_image)
  then show ?thesis using sub finite_below by (simp add: card_subset_eq)
qed

lemma img_inj:
  assumes "perm_list n p"
  shows "inj_on (img p) (below n)"
proof -
  have "card (img p ` below n) = card (below n)" using img_below [OF assms] by simp
  then show ?thesis using finite_below by (simp add: eq_card_imp_inj_on)
qed

lemma inv_sgn_mul:
  assumes "perm_list n p" "perm_list n q" "x \<in> below n"
  shows "inv_sgn (mat_mul p q) x = inv_sgn p x * inv_sgn q (img p x)"
proof -
  obtain i j where ij: "x = (i, j)" "i < j" "j < n" using assms(3) by (auto simp: below_def)
  have dp: "distinct p" and lp: "length p = n" using assms(1) by (simp_all add: perm_list_def)
  have dq: "distinct q" and lq: "length q = n" using assms(2) by (simp_all add: perm_list_def)
  have pi: "p ! i < n" and pj: "p ! j < n"
    using assms(1) ij by (simp_all add: perm_list_nth_less)
  have ne: "p ! i \<noteq> p ! j" using dp lp ij by (simp add: nth_eq_iff_index_eq)
  then have neq: "q ! (p ! i) \<noteq> q ! (p ! j)" using dq lq pi pj by (simp add: nth_eq_iff_index_eq)
  show ?thesis
    using ne neq ij lp
    by (auto simp: inv_sgn_def img_def mat_mul_nth min_def max_def)
qed

lemma sign_mul:
  assumes "perm_list n p" "perm_list n q"
  shows "sign (mat_mul p q) = sign p * sign q"
proof -
  have lp: "length p = n" and lq: "length q = n" using assms by (simp_all add: perm_list_def)
  have "sign (mat_mul p q) = prod (inv_sgn (mat_mul p q)) (below n)"
    using lp by (simp add: sign_prod)
  also have "\<dots> = prod (\<lambda>x. inv_sgn p x * inv_sgn q (img p x)) (below n)"
    by (rule prod.cong) (simp_all add: inv_sgn_mul [OF assms])
  also have "\<dots> = prod (inv_sgn p) (below n) * prod (\<lambda>x. inv_sgn q (img p x)) (below n)"
    by (rule prod.distrib)
  also have "prod (\<lambda>x. inv_sgn q (img p x)) (below n) = prod (inv_sgn q) (img p ` below n)"
    using prod.reindex [OF img_inj [OF assms(1)], of "inv_sgn q"] by (simp add: comp_def)
  also have "\<dots> = prod (inv_sgn q) (below n)" by (simp add: img_below [OF assms(1)])
  finally show ?thesis using lp lq by (simp add: sign_prod)
qed

lemma sign_eye: "sign (eye n) = 1"
proof -
  have "prod (inv_sgn (eye n)) (below n) = prod (\<lambda>x. 1) (below n)"
    by (rule prod.cong) (auto simp: inv_sgn_def below_def eye_def)
  then show ?thesis by (simp add: sign_prod eye_def)
qed

lemma sign_unit: "sign p = 1 \<or> sign p = - 1"
proof -
  have "\<And>xs :: (nat \<times> nat) list. prod_list (map (\<lambda>(i, j). if p ! i < p ! j then (1::int) else - 1) xs) = 1
     \<or> prod_list (map (\<lambda>(i, j). if p ! i < p ! j then (1::int) else - 1) xs) = - 1"
  proof -
    fix xs :: "(nat \<times> nat) list"
    show "prod_list (map (\<lambda>(i, j). if p ! i < p ! j then (1::int) else - 1) xs) = 1
     \<or> prod_list (map (\<lambda>(i, j). if p ! i < p ! j then (1::int) else - 1) xs) = - 1"
      by (induction xs) (auto split: prod.splits)
  qed
  then show ?thesis by (simp add: sign_def)
qed

lemma sign_inv:
  assumes "perm_list n p"
  shows "sign (mat_inv p) = sign p"
proof -
  have "sign p * sign (mat_inv p) = 1"
    using sign_mul [OF assms perm_list_inv [OF assms]] assms
    by (simp add: mat_mul_inv_right sign_eye)
  then show ?thesis using sign_unit [of p] sign_unit [of "mat_inv p"] by auto
qed

section \<open>The block structure of the orientation matrices\<close>

text \<open>
  An orientation matrix has one \<open>w \<times> w\<close> block per cubie, a power of the cyclic shift,
  placed at the block column given by the position matrix.  \<open>tw w ori i\<close> is the exponent
  of block \<open>i\<close>: the orientation value that the move gives the cubie it brings to slot
  \<open>i\<close>.
\<close>

definition tw :: "nat \<Rightarrow> nat list \<Rightarrow> nat \<Rightarrow> nat" where
  "tw w ori i = ori ! (w * i) mod w"

definition bstruct :: "nat \<Rightarrow> nat \<Rightarrow> nat list \<Rightarrow> nat list \<Rightarrow> bool" where
  "bstruct w n pos ori \<longleftrightarrow>
     list_all (\<lambda>i. list_all (\<lambda>a. ori ! (w * i + a) = w * (pos ! i) + (a + tw w ori i) mod w)
       [0..<w]) [0..<n]"

definition tsum :: "nat \<Rightarrow> nat \<Rightarrow> nat list \<Rightarrow> nat" where
  "tsum w n ori = sum_list (map (tw w ori) [0..<n]) mod w"

lemma bstruct_nth:
  "bstruct w n pos ori \<Longrightarrow> i < n \<Longrightarrow> a < w \<Longrightarrow>
   ori ! (w * i + a) = w * (pos ! i) + (a + tw w ori i) mod w"
  by (simp add: bstruct_def list_all_iff)

lemma bstructI:
  assumes "\<And>i a. i < n \<Longrightarrow> a < w \<Longrightarrow>
    ori ! (w * i + a) = w * (pos ! i) + (a + tw w ori i) mod w"
  shows "bstruct w n pos ori"
  unfolding bstruct_def list_all_iff
proof (intro ballI)
  fix i a assume "i \<in> set [0..<n]" "a \<in> set [0..<w]"
  then have "i < n" "a < w" by simp_all
  then show "ori ! (w * i + a) = w * (pos ! i) + (a + tw w ori i) mod w" by (rule assms)
qed

lemma block_index: "i < n \<Longrightarrow> a < w \<Longrightarrow> w * i + a < w * (n::nat)"
proof -
  assume i: "i < n" and a: "a < w"
  have "w * i + a < w * i + w" using a by simp
  also have "\<dots> = w * Suc i" by simp
  also have "\<dots> \<le> w * n" using i by (intro mult_le_mono2) simp
  finally show ?thesis .
qed

lemma tw_less: "0 < w \<Longrightarrow> tw w ori i < w"
  by (simp add: tw_def)

lemma tw_mul:
  assumes w: "0 < w" and p1: "perm_list n p1" and o1: "length o1 = w * n"
    and s1: "bstruct w n p1 o1" and s2: "bstruct w n p2 o2" and i: "i < n"
  shows "tw w (mat_mul o1 o2) i = (tw w o1 i + tw w o2 (p1 ! i)) mod w"
proof -
  have pi: "p1 ! i < n" using p1 i by (rule perm_list_nth_less)
  have t1: "tw w o1 i < w" using w by (rule tw_less)
  have "mat_mul o1 o2 ! (w * i) = o2 ! (o1 ! (w * i + 0))"
    using block_index [OF i w] o1 by (simp add: mat_mul_nth)
  also have "o1 ! (w * i + 0) = w * (p1 ! i) + tw w o1 i"
    using bstruct_nth [OF s1 i w] t1 by simp
  also have "o2 ! (w * (p1 ! i) + tw w o1 i) = w * (p2 ! (p1 ! i)) + (tw w o1 i + tw w o2 (p1 ! i)) mod w"
    using bstruct_nth [OF s2 pi t1] by simp
  finally show ?thesis by (simp add: tw_def [of w "mat_mul o1 o2"])
qed

lemma bstruct_mul:
  assumes w: "0 < w" and p1: "perm_list n p1" and o1: "length o1 = w * n"
    and s1: "bstruct w n p1 o1" and s2: "bstruct w n p2 o2"
  shows "bstruct w n (mat_mul p1 p2) (mat_mul o1 o2)"
proof (rule bstructI)
  fix i a assume i: "i < n" and a: "a < w"
  have pi: "p1 ! i < n" using p1 i by (rule perm_list_nth_less)
  have lp: "length p1 = n" using p1 by (simp add: perm_list_def)
  have "mat_mul o1 o2 ! (w * i + a) = o2 ! (o1 ! (w * i + a))"
    using block_index [OF i a] o1 by (simp add: mat_mul_nth)
  also have "o1 ! (w * i + a) = w * (p1 ! i) + (a + tw w o1 i) mod w"
    by (rule bstruct_nth [OF s1 i a])
  also have "o2 ! (w * (p1 ! i) + (a + tw w o1 i) mod w)
      = w * (p2 ! (p1 ! i)) + ((a + tw w o1 i) mod w + tw w o2 (p1 ! i)) mod w"
    using bstruct_nth [OF s2 pi, of "(a + tw w o1 i) mod w"] w by simp
  also have "((a + tw w o1 i) mod w + tw w o2 (p1 ! i)) mod w
      = (a + (tw w o1 i + tw w o2 (p1 ! i)) mod w) mod w"
    by (simp add: mod_simps add.assoc)
  finally show "mat_mul o1 o2 ! (w * i + a)
      = w * (mat_mul p1 p2 ! i) + (a + tw w (mat_mul o1 o2) i) mod w"
    using tw_mul [OF w p1 o1 s1 s2 i] i lp by (simp add: mat_mul_nth)
qed

lemma sum_list_perm:
  assumes "perm_list n p"
  shows "sum_list (map g p) = sum_list (map (g :: nat \<Rightarrow> nat) [0..<n])"
proof -
  have dp: "distinct p" using assms by (simp add: perm_list_def)
  have "set p = {..<n}" using assms by (rule perm_list_set)
  then have sp: "set p = set [0..<n]" by (simp add: lessThan_atLeast0)
  have "sum_list (map g p) = sum g (set p)"
    using dp by (rule sum_list_distinct_conv_sum_set)
  also have "\<dots> = sum g (set [0..<n])" by (simp only: sp)
  also have "\<dots> = sum_list (map g [0..<n])"
    by (rule sum_list_distinct_conv_sum_set [symmetric]) simp
  finally show ?thesis .
qed

lemma sum_list_mod:
  "sum_list (map (\<lambda>i. g i mod w) xs) mod w = sum_list (map g xs) mod (w::nat)"
proof (induction xs)
  case Nil
  show ?case by simp
next
  case (Cons x xs)
  have "(g x mod w + sum_list (map (\<lambda>i. g i mod w) xs)) mod w
      = (g x mod w + sum_list (map (\<lambda>i. g i mod w) xs) mod w) mod w"
    by (rule mod_add_right_eq [symmetric])
  also have "\<dots> = (g x mod w + sum_list (map g xs) mod w) mod w" using Cons.IH by presburger
  also have "\<dots> = (g x + sum_list (map g xs)) mod w" by (rule mod_add_eq)
  finally show ?case by (simp only: list.map sum_list.Cons)
qed

lemma tsum_mul:
  assumes w: "0 < w" and p1: "perm_list n p1" and o1: "length o1 = w * n"
    and s1: "bstruct w n p1 o1" and s2: "bstruct w n p2 o2"
  shows "tsum w n (mat_mul o1 o2) = (tsum w n o1 + tsum w n o2) mod w"
proof -
  have lp: "length p1 = n" using p1 by (simp add: perm_list_def)
  have e1: "map (tw w (mat_mul o1 o2)) [0..<n]
      = map (\<lambda>i. (tw w o1 i + tw w o2 (p1 ! i)) mod w) [0..<n]"
    by (rule map_cong [OF refl]) (simp add: tw_mul [OF w p1 o1 s1 s2])
  have e2: "map (\<lambda>i. tw w o2 (p1 ! i)) [0..<n] = map (tw w o2) p1"
    by (rule nth_equalityI) (simp_all add: lp)
  have "tsum w n (mat_mul o1 o2)
      = sum_list (map (\<lambda>i. (tw w o1 i + tw w o2 (p1 ! i)) mod w) [0..<n]) mod w"
    unfolding tsum_def by (simp only: e1)
  also have "\<dots> = sum_list (map (\<lambda>i. tw w o1 i + tw w o2 (p1 ! i)) [0..<n]) mod w"
    by (rule sum_list_mod)
  also have "sum_list (map (\<lambda>i. tw w o1 i + tw w o2 (p1 ! i)) [0..<n])
      = sum_list (map (tw w o1) [0..<n]) + sum_list (map (\<lambda>i. tw w o2 (p1 ! i)) [0..<n])"
    by (rule sum_list_addf)
  also have "sum_list (map (\<lambda>i. tw w o2 (p1 ! i)) [0..<n]) = sum_list (map (tw w o2) [0..<n])"
    unfolding e2 by (rule sum_list_perm [OF p1])
  finally have "tsum w n (mat_mul o1 o2)
      = (sum_list (map (tw w o1) [0..<n]) + sum_list (map (tw w o2) [0..<n])) mod w" .
  also have "\<dots> = (sum_list (map (tw w o1) [0..<n]) mod w
      + sum_list (map (tw w o2) [0..<n]) mod w) mod w"
    by (rule mod_add_eq [symmetric])
  finally show ?thesis unfolding tsum_def .
qed

lemma bstruct_inv_nth:
  assumes w: "0 < w" and p: "perm_list n p" and o: "perm_list (w * n) ori"
    and s: "bstruct w n p ori" and j: "j < n" and c: "c < w"
  shows "mat_inv ori ! (w * j + c)
      = w * (mat_inv p ! j) + (c + (w - tw w ori (mat_inv p ! j))) mod w"
proof -
  define i where "i = mat_inv p ! j"
  have lp: "length p = n" and lo: "length ori = w * n" and d: "distinct ori"
    using p o by (simp_all add: perm_list_def)
  have jp: "j \<in> set p" using perm_list_set [OF p] j by simp
  have i: "i < n" using perm_list_nth_less [OF perm_list_inv [OF p] j] by (simp add: i_def)
  have pij: "p ! i = j" using jp j lp by (simp add: i_def mat_inv_def nth_index_of)
  define t where "t = tw w ori i"
  have t: "t < w" using w by (simp add: t_def tw_less)
  define a where "a = (c + (w - t)) mod w"
  have a: "a < w" using w by (simp add: a_def)
  have "(a + t) mod w = (c + (w - t) + t) mod w" by (simp add: a_def mod_simps)
  also have "\<dots> = c" using t c by simp
  finally have at: "(a + t) mod w = c" .
  have "ori ! (w * i + a) = w * j + c"
    using bstruct_nth [OF s i a] pij at by (simp add: t_def)
  then have "index_of ori (w * j + c) = w * i + a"
    using index_of_nth [OF d, of "w * i + a"] block_index [OF i a] lo by simp
  then show ?thesis
    using block_index [OF j c] lo by (simp add: mat_inv_def a_def t_def i_def)
qed

lemma tw_inv:
  assumes w: "0 < w" and p: "perm_list n p" and o: "perm_list (w * n) ori"
    and s: "bstruct w n p ori" and j: "j < n"
  shows "tw w (mat_inv ori) j = (w - tw w ori (mat_inv p ! j)) mod w"
  using bstruct_inv_nth [OF w p o s j w] by (simp add: tw_def)

lemma bstruct_inv:
  assumes w: "0 < w" and p: "perm_list n p" and o: "perm_list (w * n) ori"
    and s: "bstruct w n p ori"
  shows "bstruct w n (mat_inv p) (mat_inv ori)"
proof (rule bstructI)
  fix j c assume j: "j < n" and c: "c < w"
  show "mat_inv ori ! (w * j + c) = w * (mat_inv p ! j) + (c + tw w (mat_inv ori) j) mod w"
    using bstruct_inv_nth [OF w p o s j c] tw_inv [OF w p o s j] by (simp add: mod_simps)
qed

lemma bstruct_eye: "0 < w \<Longrightarrow> bstruct w n (eye n) (eye (w * n))"
proof (rule bstructI)
  fix i a assume "0 < w" and i: "i < n" and a: "a < w"
  have "w * i + 0 < w * n" using block_index [OF i \<open>0 < w\<close>] .
  then have "tw w (eye (w * n)) i = 0" by (simp add: tw_def eye_def)
  then show "eye (w * n) ! (w * i + a) = w * (eye n ! i) + (a + tw w (eye (w * n)) i) mod w"
    using block_index [OF i a] i a by (simp add: eye_def)
qed

lemma tsum_eye: "0 < w \<Longrightarrow> tsum w n (eye (w * n)) = 0"
proof -
  assume w: "0 < w"
  have e: "map (tw w (eye (w * n))) [0..<n] = map (\<lambda>i. 0) [0..<n]"
  proof (rule map_cong [OF refl])
    fix i assume "i \<in> set [0..<n]"
    then have "w * i + 0 < w * n" using block_index [of i n 0 w] w by simp
    then show "tw w (eye (w * n)) i = 0" by (simp add: tw_def eye_def)
  qed
  show ?thesis unfolding tsum_def e by simp
qed

lemma tsum_inv:
  assumes w: "0 < w" and p: "perm_list n p" and o: "perm_list (w * n) ori"
    and s: "bstruct w n p ori" and z: "tsum w n ori = 0"
  shows "tsum w n (mat_inv ori) = 0"
proof -
  have lo: "length ori = w * n" using o by (simp add: perm_list_def)
  have "tsum w n (mat_mul ori (mat_inv ori)) = (tsum w n ori + tsum w n (mat_inv ori)) mod w"
    by (rule tsum_mul [OF w p lo s bstruct_inv [OF w p o s]])
  then have "(tsum w n (mat_inv ori)) mod w = 0"
    using z o w by (simp add: mat_mul_inv_right tsum_eye)
  then show ?thesis by (simp add: tsum_def)
qed

text \<open>With the identity for position matrix and all exponents zero, the orientation matrix
  is the identity.\<close>

lemma bstruct_identity:
  assumes w: "0 < w" and l: "length ori = w * n" and s: "bstruct w n (eye n) ori"
    and z: "\<And>i. i < n \<Longrightarrow> tw w ori i = 0"
  shows "ori = eye (w * n)"
proof (rule nth_equalityI)
  show "length ori = length (eye (w * n))" using l by (simp add: eye_def)
next
  fix v assume "v < length ori"
  then have v: "v < w * n" using l by simp
  define i where "i = v div w"
  define a where "a = v mod w"
  have i: "i < n" using v w by (simp add: i_def less_mult_imp_div_less mult.commute)
  have a: "a < w" using w by (simp add: a_def)
  have ra: "v = w * i + a" by (simp add: i_def a_def)
  show "ori ! v = eye (w * n) ! v"
    using bstruct_nth [OF s i a] z [OF i] i a v unfolding ra [symmetric]
    by (simp add: eye_def ra)
qed

section \<open>Invariants of the generated moves\<close>

text \<open>
  What every move generated from the quarter turns keeps: permutation matrices, the
  block structure of both orientation matrices, a total corner twist divisible by 3, a
  total edge flip divisible by 2, and equal signs of the corner and the edge
  permutation.
\<close>

definition legal :: "move \<Rightarrow> bool" where
  "legal x \<longleftrightarrow> wf_move x \<and> bstruct 3 8 (A8 x) (S3 x) \<and> bstruct 2 12 (A12 x) (S2 x) \<and>
     tsum 3 8 (S3 x) = 0 \<and> tsum 2 12 (S2 x) = 0 \<and> sign (A8 x) = sign (A12 x)"

lemma legal_wf: "legal x \<Longrightarrow> wf_move x"
  by (simp add: legal_def)

lemma legal_id: "legal (move_seq [])"
  using bstruct_eye [of 3 8] bstruct_eye [of 2 12] tsum_eye [of 3 8] tsum_eye [of 2 12]
  by (simp add: legal_def wf_move_seq sign_eye)

lemma legal_mul:
  assumes "legal x" "legal y"
  shows "legal (mul x y)"
proof -
  have wx: "wf_move x" and wy: "wf_move y" using assms by (simp_all add: legal_def)
  have p8: "perm_list 8 (A8 x)" and p12: "perm_list 12 (A12 x)"
    and l3: "length (S3 x) = 3 * 8" and l2: "length (S2 x) = 2 * 12"
    using wx by (simp_all add: wf_move_def perm_list_def)
  have q8: "perm_list 8 (A8 y)" and q12: "perm_list 12 (A12 y)"
    using wy by (simp_all add: wf_move_def)
  have s3: "bstruct 3 8 (A8 x) (S3 x)" "bstruct 3 8 (A8 y) (S3 y)"
    and s2: "bstruct 2 12 (A12 x) (S2 x)" "bstruct 2 12 (A12 y) (S2 y)"
    using assms by (simp_all add: legal_def)
  have "bstruct 3 8 (A8 (mul x y)) (S3 (mul x y))"
    using bstruct_mul [OF _ p8 l3 s3] by simp
  moreover have "bstruct 2 12 (A12 (mul x y)) (S2 (mul x y))"
    using bstruct_mul [OF _ p12 l2 s2] by simp
  moreover have "tsum 3 8 (S3 (mul x y)) = 0"
    using tsum_mul [OF _ p8 l3 s3] assms by (simp add: legal_def)
  moreover have "tsum 2 12 (S2 (mul x y)) = 0"
    using tsum_mul [OF _ p12 l2 s2] assms by (simp add: legal_def)
  moreover have "sign (A8 (mul x y)) = sign (A12 (mul x y))"
    using sign_mul [OF p8 q8] sign_mul [OF p12 q12] assms by (simp add: legal_def)
  ultimately show ?thesis using wf_move_mul [OF wx wy] by (simp add: legal_def)
qed

lemma legal_inverse:
  assumes "legal x"
  shows "legal (inverse_move x)"
proof -
  have wx: "wf_move x" using assms by (simp add: legal_def)
  have p8: "perm_list 8 (A8 x)" and p12: "perm_list 12 (A12 x)"
    and p3: "perm_list (3 * 8) (S3 x)" and p2: "perm_list (2 * 12) (S2 x)"
    using wx by (simp_all add: wf_move_def)
  have s3: "bstruct 3 8 (A8 x) (S3 x)" and s2: "bstruct 2 12 (A12 x) (S2 x)"
    and z3: "tsum 3 8 (S3 x) = 0" and z2: "tsum 2 12 (S2 x) = 0"
    using assms by (simp_all add: legal_def)
  have "bstruct 3 8 (A8 (inverse_move x)) (S3 (inverse_move x))"
    using bstruct_inv [OF _ p8 p3 s3] by simp
  moreover have "bstruct 2 12 (A12 (inverse_move x)) (S2 (inverse_move x))"
    using bstruct_inv [OF _ p12 p2 s2] by simp
  moreover have "tsum 3 8 (S3 (inverse_move x)) = 0"
    using tsum_inv [OF _ p8 p3 s3 z3] by simp
  moreover have "tsum 2 12 (S2 (inverse_move x)) = 0"
    using tsum_inv [OF _ p12 p2 s2 z2] by simp
  moreover have "sign (A8 (inverse_move x)) = sign (A12 (inverse_move x))"
    using sign_inv [OF p8] sign_inv [OF p12] assms by (simp add: legal_def)
  ultimately show ?thesis using wf_move_inverse [OF wx] by (simp add: legal_def)
qed

lemma legal_repeat: "legal x \<Longrightarrow> legal (repeat_mul x n)"
proof (induction x n rule: repeat_mul.induct)
  case (1 x)
  then show ?case by (simp add: legal_id)
next
  case (2 x)
  then show ?case by simp
next
  case (3 x n)
  then show ?case by (simp add: legal_mul)
qed

lemma legal_pow: "legal x \<Longrightarrow> pow x n = Inr y \<Longrightarrow> legal y"
proof -
  assume x: "legal x" and p: "pow x n = Inr y"
  consider "n = 0" | "n = - 1" | "1 \<le> n" | "n < - 1" by linarith
  then show ?thesis
  proof cases
    case 1
    then show ?thesis using p legal_id by (simp add: pow_cases)
  next
    case 2
    then show ?thesis using p legal_inverse [OF x] by (simp add: pow_cases)
  next
    case 3
    then show ?thesis using p legal_repeat [OF x, of "nat n"] by (auto simp: pow_cases)
  next
    case 4
    then show ?thesis using p by (simp add: pow_cases)
  qed
qed

lemma legal_table:
  "list_all (\<lambda>t. case fund t of None \<Rightarrow> False | Some g \<Rightarrow> legal g) quarter_turns"
  by code_simp

lemma legal_fund: "fund t = Some g \<Longrightarrow> legal g"
  using legal_table fund_keys [of t g] unfolding list_all_iff by fastforce

lemma moves_legal: "m \<in> moves \<Longrightarrow> legal m"
  by (induction rule: moves.induct) (auto intro: legal_fund legal_mul legal_pow)

subsection \<open>Members of the generated set\<close>

lemma F_moves: "F \<in> moves"
  by (rule moves.fundamental [of "''F''"]) (simp add: fund_def)

lemma id_moves: "move_seq [] \<in> moves"
  by (rule moves.power [OF F_moves, of 0]) (simp add: pow_cases)

lemma inverse_moves: "x \<in> moves \<Longrightarrow> inverse_move x \<in> moves"
  by (rule moves.power [of x "- 1"]) (simp_all add: pow_cases)

lemma power_moves: "x \<in> moves \<Longrightarrow> power_move x n \<in> moves"
proof (cases n)
  case 0
  assume "x \<in> moves"
  then have "wf_move x" by (intro legal_wf moves_legal)
  then have "power_move x 0 = move_seq []"
    by (intro move_eqI) (simp_all add: wf_move_def perm_list_def)
  then show ?thesis using 0 id_moves by simp
next
  case (Suc k)
  assume x: "x \<in> moves"
  have "nat (int n) = n" "int n > - 2" "int n \<noteq> 0" "int n \<noteq> - 1" using Suc by simp_all
  then have "pow x (int n) = Inr (power_move x n)" unfolding pow_def by (simp only: if_True if_False)
  then show ?thesis using x by (rule moves.power [rotated])
qed

lemma conjugate_moves: "x \<in> moves \<Longrightarrow> g \<in> moves \<Longrightarrow> conjugate x g \<in> moves"
  by (simp add: conjugate_def moves.product inverse_moves)

lemma commutator_moves: "x \<in> moves \<Longrightarrow> y \<in> moves \<Longrightarrow> commutator x y \<in> moves"
  by (simp add: commutator_def moves.product inverse_moves)

lemma fund_moves:
  "F \<in> moves" "f \<in> moves" "R \<in> moves" "r \<in> moves" "U \<in> moves" "u \<in> moves"
  "B \<in> moves" "b \<in> moves" "L \<in> moves" "l \<in> moves" "D \<in> moves" "d \<in> moves"
  by (rule moves.fundamental [of "''F''"], simp add: fund_def,
      rule moves.fundamental [of "''f''"], simp add: fund_def,
      rule moves.fundamental [of "''R''"], simp add: fund_def,
      rule moves.fundamental [of "''r''"], simp add: fund_def,
      rule moves.fundamental [of "''U''"], simp add: fund_def,
      rule moves.fundamental [of "''u''"], simp add: fund_def,
      rule moves.fundamental [of "''B''"], simp add: fund_def,
      rule moves.fundamental [of "''b''"], simp add: fund_def,
      rule moves.fundamental [of "''L''"], simp add: fund_def,
      rule moves.fundamental [of "''l''"], simp add: fund_def,
      rule moves.fundamental [of "''D''"], simp add: fund_def,
      rule moves.fundamental [of "''d''"], simp add: fund_def)

lemma fund_l_moves: "m \<in> set fund_l \<Longrightarrow> m \<in> moves"
  using fund_moves by (auto simp: fund_l_def intro: power_moves)

lemma compose_all_moves: "set ms \<subseteq> moves \<Longrightarrow> compose_all ms \<in> moves"
  by (induction ms) (simp_all add: compose_all_def id_moves moves.product)

lemma constants_moves:
  "M0 \<in> moves" "M1 \<in> moves" "M20 \<in> moves" "M21 \<in> moves" "M22 \<in> moves" "M23 \<in> moves"
  "M31 \<in> moves"
  unfolding M0_def M1_def M20_def M21_def M22_def M23_def M31_def
  by (simp_all add: fund_moves moves.product power_moves commutator_moves)

lemma replay_moves:
  "list_all (\<lambda>t. t \<in> set quarter_turns) ts \<Longrightarrow> x \<in> moves \<Longrightarrow>
   \<exists>y. replay ts x = Inr y \<and> y \<in> moves"
proof (induction ts arbitrary: x)
  case Nil
  then show ?case by simp
next
  case (Cons t ts)
  then obtain g where g: "fund t = Some g" using fund_quarter_turn [of t] by auto
  then have "mul g x \<in> moves" using Cons.prems by (simp add: moves.product moves.fundamental)
  then show ?case using Cons g by simp
qed

section \<open>The state vector\<close>

text \<open>The state that a move produces from the solved cube: \<open>M.M * X\<close>.\<close>

definition state_of :: "move \<Rightarrow> vector" where
  "state_of x = mat_vec (make_M x) X"

lemma X_parts:
  "X = [0..<8] @ [0..<12] @ map (\<lambda>c. c mod 3) [0..<24] @ map (\<lambda>c. c mod 2) [0..<24]"
  by code_simp

lemma X_nth:
  "c < 8 \<Longrightarrow> X ! c = c"
  "c < 12 \<Longrightarrow> X ! (8 + c) = c"
  "c < 24 \<Longrightarrow> X ! (20 + c) = c mod 3"
  "c < 24 \<Longrightarrow> X ! (44 + c) = c mod 2"
  by (simp_all add: X_parts nth_append)

lemma make_M_eq:
  assumes "wf_move x"
  shows "make_M x = A8 x @ map ((+) 8) (A12 x) @ map ((+) 20) (S3 x) @ map ((+) 44) (S2 x)"
  using assms by (simp add: make_M_def block_diag_def wf_move_def perm_list_def)

lemma mat_vec_append: "mat_vec (P @ Q) y = mat_vec P y @ mat_vec Q y"
  by (simp add: mat_vec_def)

lemma mat_mul_append: "mat_mul (P @ Q) W = mat_mul P W @ mat_mul Q W"
  by (simp add: mat_mul_def)

lemma state_of_parts:
  assumes "wf_move x"
  shows "state_of x = A8 x @ A12 x @ map (\<lambda>c. c mod 3) (S3 x) @ map (\<lambda>c. c mod 2) (S2 x)"
proof -
  have b: "list_all (\<lambda>c. c < 8) (A8 x)" "list_all (\<lambda>c. c < 12) (A12 x)"
    "list_all (\<lambda>c. c < 24) (S3 x)" "list_all (\<lambda>c. c < 24) (S2 x)"
    using assms by (simp_all add: wf_move_def perm_list_def)
  have "mat_vec (A8 x) X = A8 x"
    using b(1) by (auto simp: mat_vec_def list_all_iff X_nth intro: map_idI)
  moreover have "mat_vec (map ((+) 8) (A12 x)) X = A12 x"
    using b(2) by (auto simp: mat_vec_def list_all_iff X_nth comp_def intro: map_idI)
  moreover have "mat_vec (map ((+) 20) (S3 x)) X = map (\<lambda>c. c mod 3) (S3 x)"
    using b(3) by (auto simp: mat_vec_def list_all_iff X_nth comp_def)
  moreover have "mat_vec (map ((+) 44) (S2 x)) X = map (\<lambda>c. c mod 2) (S2 x)"
    using b(4) by (auto simp: mat_vec_def list_all_iff X_nth comp_def)
  ultimately show ?thesis
    by (simp add: state_of_def make_M_eq [OF assms] mat_vec_append)
qed

lemma make_M_nth:
  assumes "wf_move y"
  shows "c < 8 \<Longrightarrow> make_M y ! c = A8 y ! c"
    "c < 12 \<Longrightarrow> make_M y ! (8 + c) = 8 + A12 y ! c"
    "c < 24 \<Longrightarrow> make_M y ! (20 + c) = 20 + S3 y ! c"
    "c < 24 \<Longrightarrow> make_M y ! (44 + c) = 44 + S2 y ! c"
  using assms by (simp_all add: make_M_eq wf_move_def perm_list_def nth_append)

lemma make_M_mul:
  assumes x: "wf_move x" and y: "wf_move y"
  shows "make_M (mul x y) = mat_mul (make_M x) (make_M y)"
proof -
  have b: "list_all (\<lambda>c. c < 8) (A8 x)" "list_all (\<lambda>c. c < 12) (A12 x)"
    "list_all (\<lambda>c. c < 24) (S3 x)" "list_all (\<lambda>c. c < 24) (S2 x)"
    using x by (simp_all add: wf_move_def perm_list_def)
  have "mat_mul (A8 x) (make_M y) = mat_mul (A8 x) (A8 y)"
    using b(1) by (auto simp: mat_mul_def list_all_iff make_M_nth [OF y])
  moreover have "mat_mul (map ((+) 8) (A12 x)) (make_M y) = map ((+) 8) (mat_mul (A12 x) (A12 y))"
    using b(2) by (auto simp: mat_mul_def list_all_iff make_M_nth [OF y])
  moreover have "mat_mul (map ((+) 20) (S3 x)) (make_M y) = map ((+) 20) (mat_mul (S3 x) (S3 y))"
    using b(3) by (auto simp: mat_mul_def list_all_iff make_M_nth [OF y])
  moreover have "mat_mul (map ((+) 44) (S2 x)) (make_M y) = map ((+) 44) (mat_mul (S2 x) (S2 y))"
    using b(4) by (auto simp: mat_mul_def list_all_iff make_M_nth [OF y])
  ultimately show ?thesis
    by (simp add: make_M_eq [OF x] make_M_eq [OF wf_move_mul [OF x y]] mat_mul_append)
qed

lemma mat_vec_mul:
  "list_all (\<lambda>c. c < length Q) P \<Longrightarrow> mat_vec P (mat_vec Q y) = mat_vec (mat_mul P Q) y"
  by (auto simp: mat_vec_def mat_mul_def list_all_iff)

lemma state_step:
  assumes x: "wf_move x" and y: "wf_move y"
  shows "mat_vec (make_M x) (state_of y) = state_of (mul x y)"
proof -
  have "length (make_M y) = 68"
    using y by (simp add: make_M_eq wf_move_def perm_list_def)
  moreover have "list_all (\<lambda>c. c < 68) (make_M x)"
    using x by (auto simp: make_M_eq wf_move_def perm_list_def list_all_iff)
  ultimately show ?thesis
    by (simp add: state_of_def mat_vec_mul make_M_mul [OF x y])
qed

lemma state_corner_pos: "wf_move x \<Longrightarrow> take 8 (state_of x) = A8 x"
  by (simp add: state_of_parts wf_move_def perm_list_def)

lemma state_edge_pos: "wf_move x \<Longrightarrow> take 12 (drop 8 (state_of x)) = A12 x"
  by (simp add: state_of_parts wf_move_def perm_list_def)

lemma state_corner_ori:
  "wf_move x \<Longrightarrow> take (4 * 8 + 12 - (8 + 12)) (drop (8 + 12) (state_of x)) = map (\<lambda>c. c mod 3) (S3 x)"
  by (simp add: state_of_parts wf_move_def perm_list_def)

lemma state_edge_ori:
  "wf_move x \<Longrightarrow> drop (4 * 8 + 12) (state_of x) = map (\<lambda>c. c mod 2) (S2 x)"
  by (simp add: state_of_parts wf_move_def perm_list_def)

lemma state_of_solved:
  assumes "A8 x = eye 8" "A12 x = eye 12" "S3 x = eye 24" "S2 x = eye 24"
  shows "state_of x = X"
  using assms by (simp add: state_of_def state_of_identity)

lemma mat_vec_mod:
  "list_all (\<lambda>c. c < length Q) P \<Longrightarrow>
   mat_vec P (map (\<lambda>c. c mod k) Q) = map (\<lambda>c. c mod k) (mat_mul P Q)"
  by (auto simp: mat_vec_def mat_mul_def list_all_iff)

section \<open>A search succeeds when a product of authorized moves passes the test\<close>

text \<open>
  \<open>walk g [m1, .., mk]\<close> is the candidate \<open>mk * (.. * (m1 * g))\<close> reached from \<open>g\<close> by the
  extensions \<open>m1, .., mk\<close> in this order; \<open>unpruned g ms\<close> says that none of these
  extensions is pruned.
\<close>

fun walk :: "move \<Rightarrow> move list \<Rightarrow> move" where
  "walk g [] = g"
| "walk g (m # ms) = walk (mul m g) ms"

fun unpruned :: "move \<Rightarrow> move list \<Rightarrow> bool" where
  "unpruned g [] = True"
| "unpruned g (m # ms) = (\<not> cancel_b m g \<and> unpruned (mul m g) ms)"

lemma find_None_iff: "find P xs = None \<longleftrightarrow> (\<forall>x\<in>set xs. \<not> P x)"
  by (induction xs) auto

lemma cur_of_member:
  "n \<noteq> 1 \<Longrightarrow> m \<in> set auth \<Longrightarrow> g \<in> set prev \<Longrightarrow> \<not> cancel_b m g \<Longrightarrow>
   mul m g \<in> set (cur_of auth n prev)"
  by (auto simp: cur_of_def)

lemma cur_of_member_first:
  "m \<in> set auth \<Longrightarrow> g \<in> set prev \<Longrightarrow> mul m g \<in> set (cur_of auth 1 prev)"
  by (auto simp: cur_of_def)

lemma nonempty_mul: "nonempty m \<Longrightarrow> nonempty (mul m g)"
  by (simp add: nonempty_def)

lemma send_step:
  assumes tot: "total_on test tb auth" and ne: "list_all nonempty auth"
    and pv: "n = 1 \<or> list_all nonempty prev"
    and le: "n \<le> mx" and x: "x \<in> set (cur_of auth n prev)"
    and later: "tb x \<or> (\<exists>G. send test auth mx (n + 1) (filter nonempty (cur_of auth n prev)) = Inr (Some G))"
  shows "\<exists>G. send test auth mx n prev = Inr (Some G)"
proof (cases "find tb (cur_of auth n prev)")
  case (Some y)
  then show ?thesis using send_unfold [OF tot ne pv, of mx] le by simp
next
  case None
  then have "\<not> tb x" using x by (simp add: find_None_iff)
  then show ?thesis using later None send_unfold [OF tot ne pv, of mx] le by simp
qed

lemma send_reach:
  assumes tot: "total_on test tb auth" and ne: "list_all nonempty auth"
  shows "2 \<le> n \<Longrightarrow> g \<in> set prev \<Longrightarrow> list_all nonempty prev \<Longrightarrow> set ms \<subseteq> set auth \<Longrightarrow>
    unpruned g ms \<Longrightarrow> ms \<noteq> [] \<Longrightarrow> n + length ms \<le> mx + 1 \<Longrightarrow> tb (walk g ms) \<Longrightarrow>
    \<exists>G. send test auth mx n prev = Inr (Some G)"
proof (induction ms arbitrary: n prev g)
  case Nil
  then show ?case by simp
next
  case (Cons m ms)
  have m: "m \<in> set auth" and nc: "\<not> cancel_b m g" using Cons.prems by simp_all
  have mem: "mul m g \<in> set (cur_of auth n prev)"
    using Cons.prems(1) by (intro cur_of_member [OF _ m Cons.prems(2) nc]) simp
  have nem: "nonempty (mul m g)" using m ne by (simp add: list_all_iff nonempty_mul)
  have le: "n \<le> mx" using Cons.prems(7) by simp
  have pv: "n = 1 \<or> list_all nonempty prev" using Cons.prems(3) by simp
  show ?case
  proof (cases "ms = []")
    case True
    then have "tb (mul m g)" using Cons.prems(8) by simp
    then show ?thesis using send_step [OF tot ne pv le mem] by blast
  next
    case False
    have "\<exists>G. send test auth mx (n + 1) (filter nonempty (cur_of auth n prev)) = Inr (Some G)"
    proof (rule Cons.IH [of "n + 1" "mul m g"])
      show "2 \<le> n + 1" using Cons.prems(1) by simp
      show "mul m g \<in> set (filter nonempty (cur_of auth n prev))" using mem nem by simp
      show "list_all nonempty (filter nonempty (cur_of auth n prev))" by (simp add: list_all_iff)
      show "set ms \<subseteq> set auth" using Cons.prems(4) by simp
      show "unpruned (mul m g) ms" using Cons.prems(5) by simp
      show "ms \<noteq> []" by (rule False)
      show "n + 1 + length ms \<le> mx + 1" using Cons.prems(7) by simp
      show "tb (walk (mul m g) ms)" using Cons.prems(8) by simp
    qed
    then show ?thesis using send_step [OF tot ne pv le mem] by blast
  qed
qed

lemma send_complete:
  assumes tot: "total_on test tb auth" and ne: "list_all nonempty auth"
    and m: "m \<in> set auth" and ms: "set ms \<subseteq> set auth"
    and un: "unpruned (mul m (move_seq [])) ms"
    and len: "1 + length ms \<le> mx"
    and ok: "tb (walk (mul m (move_seq [])) ms)"
  shows "\<exists>G. send test auth mx 1 prev0 = Inr (Some G)"
proof -
  let ?g = "mul m (move_seq [])"
  have mem: "?g \<in> set (cur_of auth 1 prev0)"
    using m by (intro cur_of_member_first) (simp_all add: prev0_def)
  have nem: "nonempty ?g" using m ne by (simp add: list_all_iff nonempty_mul)
  have pv: "(1::nat) = 1 \<or> list_all nonempty prev0" by simp
  have le: "1 \<le> mx" using len by simp
  show ?thesis
  proof (cases "ms = []")
    case True
    then have "tb ?g" using ok by simp
    then show ?thesis using send_step [OF tot ne pv le mem] by blast
  next
    case False
    have "\<exists>G. send test auth mx (1 + 1) (filter nonempty (cur_of auth 1 prev0)) = Inr (Some G)"
    proof (rule send_reach [OF tot ne, of "1 + 1" ?g _ ms])
      show "2 \<le> (1::nat) + 1" by simp
      show "?g \<in> set (filter nonempty (cur_of auth 1 prev0))" using mem nem by simp
      show "list_all nonempty (filter nonempty (cur_of auth 1 prev0))" by (simp add: list_all_iff)
      show "set ms \<subseteq> set auth" by (rule ms)
      show "unpruned ?g ms" by (rule un)
      show "ms \<noteq> []" by (rule False)
      show "1 + 1 + length ms \<le> mx + 1" using len by simp
      show "tb (walk ?g ms)" by (rule ok)
    qed
    then show ?thesis using send_step [OF tot ne pv le mem] by blast
  qed
qed

subsection \<open>Following a product on one position matrix\<close>

text \<open>
  Whether an extension is pruned depends on two tokens, and the tests of the searches
  on one position matrix.  \<open>follow p lt steps\<close> runs a list of extensions, each given by
  its position matrix, its first and its last token, from a candidate with position
  matrix \<open>p\<close> and last token \<open>lt\<close>.
\<close>

definition cancel_tok :: "token \<Rightarrow> token \<Rightarrow> bool" where
  "cancel_tok m0 gl \<longleftrightarrow>
     (upper m0 = m0 \<and> gl = lower m0) \<or> (lower m0 = m0 \<and> gl = upper m0) \<or> m0 = gl"

fun follow :: "matrix \<Rightarrow> token \<Rightarrow> (matrix \<times> token \<times> token) list \<Rightarrow> matrix option" where
  "follow p lt [] = Some p"
| "follow p lt ((q, ft, lt') # rest) =
     (if cancel_tok ft lt then None else follow (mat_mul q p) lt' rest)"

definition reach :: "nat \<Rightarrow> (matrix \<times> token \<times> token) list \<Rightarrow> matrix option" where
  "reach n steps =
     (case steps of [] \<Rightarrow> Some (eye n) | (q, ft, lt) # rest \<Rightarrow> follow (mat_mul q (eye n)) lt rest)"

lemma cancel_b_tok: "cancel_b m g = cancel_tok (hd (decompo m)) (last (decompo g))"
  by (simp add: cancel_b_def cancel_tok_def Let_def)

lemma follow_walk:
  assumes hom: "\<And>m g. pj (mul m g) = mat_mul (pj m) (pj g)"
  shows "list_all nonempty ms \<Longrightarrow>
    follow (pj g) (last (decompo g)) (map (\<lambda>m. (pj m, hd (decompo m), last (decompo m))) ms) = Some p \<Longrightarrow>
    unpruned g ms \<and> pj (walk g ms) = p"
proof (induction ms arbitrary: g)
  case Nil
  then show ?case by simp
next
  case (Cons m ms)
  have nc: "\<not> cancel_tok (hd (decompo m)) (last (decompo g))"
    using Cons.prems(2) by (auto split: if_splits)
  have ne: "decompo m \<noteq> []" using Cons.prems(1) by (simp add: nonempty_def)
  have "follow (pj (mul m g)) (last (decompo (mul m g)))
      (map (\<lambda>m. (pj m, hd (decompo m), last (decompo m))) ms) = Some p"
    using Cons.prems(2) nc ne by (simp add: hom)
  then have "unpruned (mul m g) ms \<and> pj (walk (mul m g) ms) = p"
    using Cons.IH Cons.prems(1) by simp
  then show ?case using nc by (simp add: cancel_b_tok)
qed

lemma wf_walk: "wf_move g \<Longrightarrow> list_all wf_move ms \<Longrightarrow> wf_move (walk g ms)"
  by (induction ms arbitrary: g) (simp_all add: wf_move_mul)

lemma send_witness:
  assumes tot: "total_on test tb auth" and ne: "list_all nonempty auth"
    and wf: "list_all wf_move auth"
    and hom: "\<And>m g. pj (mul m g) = mat_mul (pj m) (pj g)"
    and pid: "pj (move_seq []) = eye n"
    and ms: "set ms \<subseteq> set auth" and len: "length ms \<le> mx" and mx: "1 \<le> mx"
    and r: "reach n (map (\<lambda>m. (pj m, hd (decompo m), last (decompo m))) ms) = Some p"
    and ok: "\<And>x. wf_move x \<Longrightarrow> pj x = p \<Longrightarrow> tb x"
  shows "\<exists>G. send test auth mx 1 prev0 = Inr (Some G)"
proof (cases ms)
  case Nil
  then have "pj (move_seq []) = p" using r pid by (simp add: reach_def)
  then have "tb (move_seq [])" using ok wf_move_seq by blast
  then have "test (move_seq []) = Inr True"
    using tot mul_id_id unfolding total_on_def by (metis list.set_intros(1))
  then show ?thesis using send_identity [OF mx] by blast
next
  case (Cons m rest)
  let ?g = "mul m (move_seq [])"
  have m: "m \<in> set auth" and rest: "set rest \<subseteq> set auth" using ms Cons by simp_all
  have nem: "nonempty m" and ner: "list_all nonempty rest"
    using ne m rest by (auto simp: list_all_iff)
  have wfm: "wf_move ?g" and wfr: "list_all wf_move rest"
    using wf m rest wf_move_seq by (auto simp: list_all_iff wf_move_mul)
  have "follow (pj ?g) (last (decompo ?g))
      (map (\<lambda>m. (pj m, hd (decompo m), last (decompo m))) rest) = Some p"
    using r Cons by (simp add: reach_def hom pid)
  then have fw: "unpruned ?g rest \<and> pj (walk ?g rest) = p"
    by (rule follow_walk [OF hom ner])
  then have "tb (walk ?g rest)" using ok wf_walk [OF wfm wfr] by blast
  then show ?thesis
    using send_complete [OF tot ne m rest _ _, of mx] fw len Cons by simp
qed

section \<open>The power \<open>-1\<close> is the inverse\<close>

text \<open>
  \<open>undoes m y\<close>: both products of \<open>m\<close> and \<open>y\<close> act as the identity, on positions and on
  orientations.
\<close>

definition undoes :: "move \<Rightarrow> move \<Rightarrow> bool" where
  "undoes m y \<longleftrightarrow>
     A8 (mul m y) = eye 8 \<and> A12 (mul m y) = eye 12 \<and>
     S3 (mul m y) = eye 24 \<and> S2 (mul m y) = eye 24 \<and>
     A8 (mul y m) = eye 8 \<and> A12 (mul y m) = eye 12 \<and>
     S3 (mul y m) = eye 24 \<and> S2 (mul y m) = eye 24"

lemma undoes_inverse: "wf_move m \<Longrightarrow> undoes m (inverse_move m)"
  using mul_inverse_right_fields [of m] mul_inverse_left_fields [of m]
  by (simp add: undoes_def del: mul_sel inverse_move_sel)

lemma undoes_unique:
  assumes m: "wf_move m" and z: "wf_move z" and u: "undoes m z"
  shows "A8 z = A8 (inverse_move m)" "A12 z = A12 (inverse_move m)"
    "S3 z = S3 (inverse_move m)" "S2 z = S2 (inverse_move m)"
  using m z u mat_inv_unique [of 8 "A8 m" "A8 z"] mat_inv_unique [of 12 "A12 m" "A12 z"]
    mat_inv_unique [of 24 "S3 m" "S3 z"] mat_inv_unique [of 24 "S2 m" "S2 z"]
  by (simp_all add: undoes_def wf_move_def)

lemma replay_with_inverse:
  assumes "m \<in> moves"
  shows "replay (decompo m @ decompo (inverse_move m)) (move_seq []) = Inr (mul (inverse_move m) m)"
proof -
  have fm: "faithful m" by (rule moves_faithful [OF assms])
  then have r1: "replay (decompo m) (move_seq []) = Inr m" and wf: "wf_move m"
    by (simp_all add: faithful_def)
  have "replay (decompo (inverse_move m)) m = Inr (mul (inverse_move m) m)"
    using faithful_inverse [OF fm] wf by (rule faithful_replay)
  then show ?thesis by (simp add: replay_append r1)
qed

text \<open>
  \<^bold>\<open>Claim C7.\<close>  For every move \<open>m\<close>: the power 0 is the identity move with the empty
  token list.  The power \<open>-1\<close> of a well-formed move is its inverse: a well-formed move
  \<open>y\<close> such that \<open>m * y\<close> and \<open>y * m\<close> have identity position and orientation matrices, the
  only one up to its token list, and the token list of \<open>y\<close> is that of \<open>m\<close> reversed with
  the case of each token swapped; when \<open>m\<close> is generated from the quarter turns,
  replaying the tokens of \<open>m\<close> followed by those of \<open>y\<close> gives \<open>y * m\<close>.  A power \<open>n \<ge> 1\<close> is
  \<open>m\<close> composed with itself \<open>n\<close> times; an exponent below \<open>-1\<close> raises \<open>ValueError\<close> and
  builds no move.
\<close>

theorem pow_cases_all:
  "pow m 0 = Inr (move_seq []) \<and> decompo (move_seq []) = [] \<and>
   pow m (- 1) = Inr (inverse_move m) \<and>
   (wf_move m \<longrightarrow>
      (\<exists>y. pow m (- 1) = Inr y \<and> wf_move y \<and> undoes m y \<and>
         decompo y = map swap_case (rev (decompo m)) \<and>
         (\<forall>z. wf_move z \<and> undoes m z \<longrightarrow>
            A8 z = A8 y \<and> A12 z = A12 y \<and> S3 z = S3 y \<and> S2 z = S2 y) \<and>
         (m \<in> moves \<longrightarrow> replay (decompo m @ decompo y) (move_seq []) = Inr (mul y m)))) \<and>
   (1 \<le> n \<longrightarrow> pow m n = Inr (repeat_mul m (nat n))) \<and>
   (n < - 1 \<longrightarrow> pow m n = Inl ValueError)"
proof -
  have "\<exists>y. pow m (- 1) = Inr y \<and> wf_move y \<and> undoes m y \<and>
         decompo y = map swap_case (rev (decompo m)) \<and>
         (\<forall>z. wf_move z \<and> undoes m z \<longrightarrow>
            A8 z = A8 y \<and> A12 z = A12 y \<and> S3 z = S3 y \<and> S2 z = S2 y) \<and>
         (m \<in> moves \<longrightarrow> replay (decompo m @ decompo y) (move_seq []) = Inr (mul y m))"
    if wf: "wf_move m"
  proof (intro exI [of _ "inverse_move m"] conjI allI impI)
    show "pow m (- 1) = Inr (inverse_move m)" by (simp add: pow_cases)
    show "wf_move (inverse_move m)" by (rule wf_move_inverse [OF wf])
    show "undoes m (inverse_move m)" by (rule undoes_inverse [OF wf])
    show "decompo (inverse_move m) = map swap_case (rev (decompo m))" by simp
    show "A8 z = A8 (inverse_move m)" "A12 z = A12 (inverse_move m)"
      "S3 z = S3 (inverse_move m)" "S2 z = S2 (inverse_move m)" if "wf_move z \<and> undoes m z" for z
      using undoes_unique [OF wf, of z] that by blast+
    show "replay (decompo m @ decompo (inverse_move m)) (move_seq []) = Inr (mul (inverse_move m) m)"
      if "m \<in> moves" using that by (rule replay_with_inverse)
  qed
  then show ?thesis by (simp add: pow_cases)
qed

theorem pow_cases_all_witness:
  "pow F 0 = Inr (move_seq []) \<and> wf_move F \<and> F \<in> moves \<and> pow F (- 1) = Inr f \<and>
   undoes F f \<and> decompo f = [''f''] \<and>
   A8 (mul F f) = [0..<8] \<and> A8 (mul f F) = [0..<8] \<and> S3 (mul f F) = [0..<24] \<and>
   replay [''F'', ''f''] (move_seq []) = Inr (mul f F) \<and>
   pow F 3 = Inr (mul F (mul F F)) \<and> pow F (- 2) = Inl ValueError"
proof -
  note t = pow_cases_all [of F 3]
  have p0: "pow F 0 = Inr (move_seq [])" using t by (rule conjunct1)
  have pm: "pow F (- 1) = Inr (inverse_move F)" using t by blast
  have "repeat_mul F (nat 3) = mul F (mul F F)" by (simp add: numeral_3_eq_3)
  then have p3: "pow F 3 = Inr (mul F (mul F F))" using t by simp
  have p2: "pow F (- 2) = Inl ValueError" using pow_cases_all [of F "- 2"] by simp
  obtain y where y: "pow F (- 1) = Inr y" "undoes F y"
    "decompo y = map swap_case (rev (decompo F))"
    "F \<in> moves \<longrightarrow> replay (decompo F @ decompo y) (move_seq []) = Inr (mul y F)"
    using t wf_F by blast
  have yf: "y = f" using y(1) pm by (simp add: f_def)
  have dF: "decompo F = [''F'']" and df: "decompo f = [''f'']" by code_simp+
  have u: "undoes F f" using y(2) by (simp only: yf)
  have rp: "replay [''F'', ''f''] (move_seq []) = Inr (mul f F)"
    using y(4) F_moves by (simp only: yf dF df append_Cons append_Nil)
  have a: "A8 (mul F f) = [0..<8]" "A8 (mul f F) = [0..<8]" "S3 (mul f F) = [0..<24]"
    using u by (simp_all only: undoes_def eye_def)
  show ?thesis using p0 wf_F F_moves pm u df a rp p3 p2 by (simp only: f_def simp_thms)
qed

section \<open>The search visits the depths in order\<close>

text \<open>
  The candidates of depth \<open>k\<close>: at depth 1 the identity and the authorized moves, each
  multiplied onto the identity; at depth \<open>k \<ge> 2\<close> the products of \<open>k\<close> authorized moves in
  which no factor is pruned against the product below it.
\<close>

definition depth_candidates :: "move list \<Rightarrow> nat \<Rightarrow> move set" where
  "depth_candidates auth k =
     {walk (mul m (move_seq [])) ms | m ms.
        m \<in> set auth \<and> set ms \<subseteq> set auth \<and> Suc (length ms) = k \<and>
        unpruned (mul m (move_seq [])) ms}
     \<union> (if k = 1 then {mul (move_seq []) (move_seq [])} else {})"

text \<open>
  What an iteratively deepening search owes its caller: it returns a value; a returned
  move passes the test and is a candidate of some depth \<open>k\<close> between 1 and \<open>maxMove\<close>, and
  no candidate of a smaller depth passes the test; the result is \<open>None\<close> exactly when no
  candidate of any depth from 1 to \<open>maxMove\<close> passes the test.
\<close>

definition deepening_spec :: "py_error + move option \<Rightarrow> (move \<Rightarrow> py_error + bool) \<Rightarrow> move list \<Rightarrow> nat \<Rightarrow> bool" where
  "deepening_spec result test auth maxMove \<longleftrightarrow>
     (\<exists>res. result = Inr res) \<and>
     (\<forall>G. result = Inr (Some G) \<longrightarrow>
        (\<exists>k. 1 \<le> k \<and> k \<le> maxMove \<and> G \<in> depth_candidates auth k \<and> test G = Inr True \<and>
           (\<forall>j x. 1 \<le> j \<and> j < k \<and> x \<in> depth_candidates auth j \<longrightarrow> test x \<noteq> Inr True))) \<and>
     ((result = Inr None) =
        (\<forall>k x. 1 \<le> k \<and> k \<le> maxMove \<and> x \<in> depth_candidates auth k \<longrightarrow> test x \<noteq> Inr True))"

lemma cur_of_later:
  "n \<noteq> 1 \<Longrightarrow> x \<in> set (cur_of auth n prev) \<Longrightarrow>
   \<exists>m g. m \<in> set auth \<and> g \<in> set prev \<and> \<not> cancel_b m g \<and> x = mul m g"
  by (auto simp: cur_of_def)

lemma cur_of_first:
  "set (cur_of auth 1 prev0) = {mul m (move_seq []) | m. m \<in> set (move_seq [] # auth)}"
  by (auto simp: cur_of_def prev0_def)

lemma send_minimal:
  assumes tot: "total_on test tb auth" and ne: "list_all nonempty auth"
  shows "2 \<le> n \<Longrightarrow> list_all nonempty prev \<Longrightarrow> send test auth mx n prev = Inr (Some G) \<Longrightarrow>
    \<exists>g ms. g \<in> set prev \<and> set ms \<subseteq> set auth \<and> ms \<noteq> [] \<and> unpruned g ms \<and>
      n + length ms \<le> mx + 1 \<and> G = walk g ms \<and> tb G \<and>
      (\<forall>g' ms'. g' \<in> set prev \<and> set ms' \<subseteq> set auth \<and> ms' \<noteq> [] \<and> unpruned g' ms' \<and>
         length ms' < length ms \<longrightarrow> \<not> tb (walk g' ms'))"
proof (induction "Suc mx - n" arbitrary: n prev)
  case 0
  then have "n > mx" by simp
  moreover have "n = 1 \<or> list_all nonempty prev" using 0 by simp
  ultimately show ?case using send_unfold [OF tot ne, of n prev mx] 0(4) by simp
next
  case (Suc k)
  have le: "n \<le> mx" using Suc(2) by simp
  have n1: "n \<noteq> 1" using Suc(3) by simp
  have pv: "n = 1 \<or> list_all nonempty prev" using Suc(4) by simp
  let ?cur = "cur_of auth n prev"
  show ?case
  proof (cases "find tb ?cur")
    case (Some x)
    then have Gx: "G = x" using send_unfold [OF tot ne pv, of mx] le Suc(5) by simp
    have x: "tb x" "x \<in> set ?cur" using find_Some_tb [OF Some] by simp_all
    obtain m g where mg: "m \<in> set auth" "g \<in> set prev" "\<not> cancel_b m g" "x = mul m g"
      using cur_of_later [OF n1 x(2)] by blast
    show ?thesis
    proof (intro exI [of _ g] exI [of _ "[m]"] conjI allI impI)
      show "g \<in> set prev" by (rule mg(2))
      show "set [m] \<subseteq> set auth" using mg(1) by simp
      show "[m] \<noteq> []" by simp
      show "unpruned g [m]" using mg(3) by simp
      show "n + length [m] \<le> mx + 1" using le by simp
      show "G = walk g [m]" using Gx mg(4) by simp
      show "tb G" using Gx x(1) by simp
      fix g' ms'
      assume "g' \<in> set prev \<and> set ms' \<subseteq> set auth \<and> ms' \<noteq> [] \<and> unpruned g' ms' \<and>
         length ms' < length [m]"
      then show "\<not> tb (walk g' ms')" by auto
    qed
  next
    case None
    let ?pv = "filter nonempty ?cur"
    have rec: "send test auth mx (n + 1) ?pv = Inr (Some G)"
      using send_unfold [OF tot ne pv, of mx] le Suc(5) None by simp
    have k: "k = Suc mx - (n + 1)" using Suc(2) by simp
    have nn: "list_all nonempty ?pv" by (simp add: list_all_iff)
    have n2: "2 \<le> n + 1" using Suc(3) by simp
    obtain g1 ms1 where r: "g1 \<in> set ?pv" "set ms1 \<subseteq> set auth" "ms1 \<noteq> []" "unpruned g1 ms1"
      "n + 1 + length ms1 \<le> mx + 1" "G = walk g1 ms1" "tb G"
      and mn: "\<forall>g' ms'. g' \<in> set ?pv \<and> set ms' \<subseteq> set auth \<and> ms' \<noteq> [] \<and> unpruned g' ms' \<and>
         length ms' < length ms1 \<longrightarrow> \<not> tb (walk g' ms')"
      using Suc(1) [OF k n2 nn rec] by blast
    have "g1 \<in> set ?cur" using r(1) by simp
    then obtain m g where mg: "m \<in> set auth" "g \<in> set prev" "\<not> cancel_b m g" "g1 = mul m g"
      using cur_of_later [OF n1] by blast
    show ?thesis
    proof (intro exI [of _ g] exI [of _ "m # ms1"] conjI allI impI)
      show "g \<in> set prev" by (rule mg(2))
      show "set (m # ms1) \<subseteq> set auth" using mg(1) r(2) by simp
      show "m # ms1 \<noteq> []" by simp
      show "unpruned g (m # ms1)" using mg(3,4) r(4) by simp
      show "n + length (m # ms1) \<le> mx + 1" using r(5) by simp
      show "G = walk g (m # ms1)" using r(6) mg(4) by simp
      show "tb G" by (rule r(7))
      fix g' ms'
      assume a: "g' \<in> set prev \<and> set ms' \<subseteq> set auth \<and> ms' \<noteq> [] \<and> unpruned g' ms' \<and>
         length ms' < length (m # ms1)"
      then obtain m' rs where ms': "ms' = m' # rs" by (cases ms') auto
      have m': "m' \<in> set auth" "\<not> cancel_b m' g'" "set rs \<subseteq> set auth" "unpruned (mul m' g') rs"
        "length rs < length ms1" using a ms' by simp_all
      have mem: "mul m' g' \<in> set ?cur" using a by (intro cur_of_member [OF n1 m'(1) _ m'(2)]) simp
      have "nonempty (mul m' g')" using m'(1) ne by (simp add: list_all_iff nonempty_mul)
      then have mem2: "mul m' g' \<in> set ?pv" using mem by simp
      show "\<not> tb (walk g' ms')"
      proof (cases "rs = []")
        case True
        then show ?thesis using None mem ms' by (simp add: find_None_iff)
      next
        case False
        then show ?thesis using mn mem2 m' ms' by simp
      qed
    qed
  qed
qed

lemma nonempty_first:
  assumes ne: "list_all nonempty auth"
  shows "set (filter nonempty (cur_of auth 1 prev0)) = {mul m (move_seq []) | m. m \<in> set auth}"
proof -
  have "\<not> nonempty (mul (move_seq []) (move_seq []))" by (simp add: nonempty_def)
  moreover have "nonempty (mul m (move_seq []))" if "m \<in> set auth" for m
    using that ne by (simp add: list_all_iff nonempty_mul)
  ultimately show ?thesis unfolding set_filter cur_of_first by auto
qed

lemma depth_candidates_one:
  "depth_candidates auth 1 = set (cur_of auth 1 prev0)"
  unfolding cur_of_first by (auto simp: depth_candidates_def)

lemma depth_candidates_later:
  "2 \<le> k \<Longrightarrow> x \<in> depth_candidates auth k \<Longrightarrow>
   \<exists>m ms. m \<in> set auth \<and> set ms \<subseteq> set auth \<and> ms \<noteq> [] \<and> Suc (length ms) = k \<and>
     unpruned (mul m (move_seq [])) ms \<and> x = walk (mul m (move_seq [])) ms"
proof -
  assume k: "2 \<le> k" and "x \<in> depth_candidates auth k"
  then obtain m ms where a: "m \<in> set auth" "set ms \<subseteq> set auth" "Suc (length ms) = k"
    "unpruned (mul m (move_seq [])) ms" "x = walk (mul m (move_seq [])) ms"
    by (auto simp: depth_candidates_def)
  then have "ms \<noteq> []" using k by auto
  then show ?thesis using a by blast
qed

lemma send_deepens:
  assumes wf: "list_all wf_move auth" and ne: "list_all nonempty auth"
    and noerr: "\<And>x. sized x \<Longrightarrow> \<exists>t. test x = Inr t"
  shows "deepening_spec (send test auth mx 1 prev0) test auth mx"
proof -
  have tot: "total_on test (passes test) auth" by (rule total_on_passes [OF wf noerr])
  have one: "(1::nat) = 1 \<or> list_all nonempty prev0" by simp
  let ?cur = "cur_of auth 1 prev0"
  let ?pv = "filter nonempty ?cur"
  have ex: "\<exists>res. send test auth mx 1 prev0 = Inr res" by (rule send_total [OF tot ne one])
  have su: "send test auth mx 1 prev0 =
     (if 1 > mx then Inr None
      else case find (passes test) ?cur of
        Some m \<Rightarrow> Inr (Some m)
      | None \<Rightarrow> send test auth mx (1 + 1) ?pv)"
    by (rule send_unfold [OF tot ne one])
  have some: "\<exists>k. 1 \<le> k \<and> k \<le> mx \<and> G \<in> depth_candidates auth k \<and> test G = Inr True \<and>
      (\<forall>j x. 1 \<le> j \<and> j < k \<and> x \<in> depth_candidates auth j \<longrightarrow> test x \<noteq> Inr True)"
    if res: "send test auth mx 1 prev0 = Inr (Some G)" for G
  proof -
    have le: "1 \<le> mx"
    proof (rule ccontr)
      assume "\<not> 1 \<le> mx"
      then show False using su res by simp
    qed
    show ?thesis
    proof (cases "find (passes test) ?cur")
      case (Some x)
      then have "G = x" using su le res by simp
      then have "passes test G" "G \<in> depth_candidates auth 1"
        using find_Some_tb [OF Some] by (simp_all only: depth_candidates_one)
      then show ?thesis using le by (intro exI [of _ 1]) (simp add: passes_def)
    next
      case None
      then have rec: "send test auth mx (1 + 1) ?pv = Inr (Some G)"
        using su le res by simp
      have nn: "list_all nonempty ?pv" by (simp add: list_all_iff)
      obtain g ms where r: "g \<in> set ?pv" "set ms \<subseteq> set auth" "ms \<noteq> []" "unpruned g ms"
        "1 + 1 + length ms \<le> mx + 1" "G = walk g ms" "passes test G"
        and mn: "\<forall>g' ms'. g' \<in> set ?pv \<and> set ms' \<subseteq> set auth \<and> ms' \<noteq> [] \<and> unpruned g' ms' \<and>
           length ms' < length ms \<longrightarrow> \<not> passes test (walk g' ms')"
        using send_minimal [OF tot ne _ nn rec] by auto
      obtain m where m: "m \<in> set auth" "g = mul m (move_seq [])"
        using r(1) unfolding nonempty_first [OF ne] by blast
      show ?thesis
      proof (intro exI [of _ "Suc (length ms)"] conjI allI impI)
        show "1 \<le> Suc (length ms)" by simp
        show "Suc (length ms) \<le> mx" using r(5) by simp
        show "G \<in> depth_candidates auth (Suc (length ms))"
          using m r(2,4,6) by (auto simp: depth_candidates_def)
        show "test G = Inr True" using r(7) by (simp add: passes_def)
        fix j x assume a: "1 \<le> j \<and> j < Suc (length ms) \<and> x \<in> depth_candidates auth j"
        show "test x \<noteq> Inr True"
        proof (cases "j = 1")
          case True
          then have "x \<in> set ?cur" using a by (simp only: depth_candidates_one)
          then show ?thesis using None by (simp add: find_None_iff passes_def)
        next
          case False
          then have "2 \<le> j" using a by simp
          then obtain m' ms' where x: "m' \<in> set auth" "set ms' \<subseteq> set auth" "ms' \<noteq> []"
            "Suc (length ms') = j" "unpruned (mul m' (move_seq [])) ms'"
            "x = walk (mul m' (move_seq [])) ms'"
            using depth_candidates_later a by blast
          have "mul m' (move_seq []) \<in> set ?pv" using x(1) unfolding nonempty_first [OF ne] by blast
          moreover have "length ms' < length ms" using x(4) a by simp
          ultimately have "\<not> passes test (walk (mul m' (move_seq [])) ms')"
            using mn x(2,3,5) by blast
          then show ?thesis using x(6) by (simp add: passes_def)
        qed
      qed
    qed
  qed
  have found: "\<exists>G. send test auth mx 1 prev0 = Inr (Some G)"
    if a: "1 \<le> k" "k \<le> mx" "x \<in> depth_candidates auth k" "test x = Inr True" for k x
  proof (cases "k = 1")
    case True
    then have mem: "x \<in> set ?cur" using a(3) by (simp only: depth_candidates_one)
    have "passes test x" using a(4) by (simp add: passes_def)
    moreover have le: "1 \<le> mx" using a(1,2) by simp
    ultimately show ?thesis using send_step [OF tot ne one le mem] by blast
  next
    case False
    then have "2 \<le> k" using a(1) by simp
    then obtain m ms where x: "m \<in> set auth" "set ms \<subseteq> set auth" "ms \<noteq> []"
      "Suc (length ms) = k" "unpruned (mul m (move_seq [])) ms"
      "x = walk (mul m (move_seq [])) ms"
      using depth_candidates_later a(3) by blast
    show ?thesis
    proof (rule send_complete [OF tot ne x(1,2,5)])
      show "1 + length ms \<le> mx" using x(4) a(2) by simp
      show "passes test (walk (mul m (move_seq [])) ms)" using x(6) a(4) by (simp add: passes_def)
    qed
  qed
  have none: "(send test auth mx 1 prev0 = Inr None) =
      (\<forall>k x. 1 \<le> k \<and> k \<le> mx \<and> x \<in> depth_candidates auth k \<longrightarrow> test x \<noteq> Inr True)"
  proof
    assume n: "send test auth mx 1 prev0 = Inr None"
    show "\<forall>k x. 1 \<le> k \<and> k \<le> mx \<and> x \<in> depth_candidates auth k \<longrightarrow> test x \<noteq> Inr True"
      using found n by fastforce
  next
    assume h: "\<forall>k x. 1 \<le> k \<and> k \<le> mx \<and> x \<in> depth_candidates auth k \<longrightarrow> test x \<noteq> Inr True"
    obtain res where res: "send test auth mx 1 prev0 = Inr res" using ex by blast
    show "send test auth mx 1 prev0 = Inr None"
    proof (cases res)
      case None
      then show ?thesis using res by simp
    next
      case (Some G)
      then show ?thesis using some [of G] res h by blast
    qed
  qed
  show ?thesis unfolding deepening_spec_def using ex some none by blast
qed

lemma send_both:
  assumes wf: "list_all wf_move auth" and ne: "list_all nonempty auth"
    and noerr: "\<And>x. sized x \<Longrightarrow> \<exists>t. test x = Inr t"
  shows "search_spec (send test auth mx 1 prev0) test auth mx \<and>
    deepening_spec (send test auth mx 1 prev0) test auth mx"
proof (rule conjI)
  show "search_spec (send test auth mx 1 prev0) test auth mx"
    by (rule send_bounded [OF wf ne noerr])
  show "deepening_spec (send test auth mx 1 prev0) test auth mx"
    by (rule send_deepens [OF wf ne noerr])
qed

text \<open>
  \<^bold>\<open>Claim C6.\<close>  For every query with slots in range and an authorized list of well-formed
  moves with non-empty decompositions (such as \<open>fund_l\<close>), each of the four search
  functions terminates with a value, never an exception.  The search deepens from depth
  1 to \<open>maxMove\<close>: a returned move passes the test, is a product of at most \<open>maxMove\<close>
  authorized moves and a candidate of some depth \<open>k\<close> with \<open>1 \<le> k \<le> maxMove\<close>, and no
  candidate of a depth below \<open>k\<close> passes the test; the result is \<open>None\<close> exactly when no
  candidate of any depth from 1 to \<open>maxMove\<close> passes the test, and in particular when no
  product of at most \<open>maxMove\<close> authorized moves does.  The default bounds are 5 for the
  corner searches and 3 for the edge searches.
\<close>

theorem connector_search_terminates:
  "list_all wf_move auth \<and> list_all nonempty auth \<longrightarrow>
   (cl1 < 8 \<and> cl2 < 8 \<longrightarrow>
      search_spec (send_8 cb1 cb2 cl1 cl2 auth maxMove 1 prev0) (test_8 cb1 cb2 cl1 cl2) auth maxMove \<and>
      deepening_spec (send_8 cb1 cb2 cl1 cl2 auth maxMove 1 prev0) (test_8 cb1 cb2 cl1 cl2)
        auth maxMove \<and>
      search_spec (send_8_slow cb1 cb2 cl1 cl2 auth maxMove 1 prev0) (test_8_slow cb1 cb2 cl1 cl2)
        auth maxMove \<and>
      deepening_spec (send_8_slow cb1 cb2 cl1 cl2 auth maxMove 1 prev0)
        (test_8_slow cb1 cb2 cl1 cl2) auth maxMove \<and>
      deepening_spec (send_8 cb1 cb2 cl1 cl2 auth maxMove_8 1 prev0) (test_8 cb1 cb2 cl1 cl2)
        auth 5 \<and>
      deepening_spec (send_8_slow cb1 cb2 cl1 cl2 auth maxMove_8 1 prev0)
        (test_8_slow cb1 cb2 cl1 cl2) auth 5) \<and>
   (cl1 < 12 \<and> cl2 < 12 \<longrightarrow>
      search_spec (send_12 cb1 cb2 cb3 cl1 cl2 auth maxMove 1 prev0) (test_12 cb1 cb2 cb3 cl1 cl2)
        auth maxMove \<and>
      deepening_spec (send_12 cb1 cb2 cb3 cl1 cl2 auth maxMove 1 prev0)
        (test_12 cb1 cb2 cb3 cl1 cl2) auth maxMove \<and>
      search_spec (send_12_slow cb1 cb2 cl1 cl2 auth maxMove 1 prev0) (test_12_slow cb1 cb2 cl1 cl2)
        auth maxMove \<and>
      deepening_spec (send_12_slow cb1 cb2 cl1 cl2 auth maxMove 1 prev0)
        (test_12_slow cb1 cb2 cl1 cl2) auth maxMove \<and>
      deepening_spec (send_12 cb1 cb2 cb3 cl1 cl2 auth maxMove_12 1 prev0)
        (test_12 cb1 cb2 cb3 cl1 cl2) auth 3 \<and>
      deepening_spec (send_12_slow cb1 cb2 cl1 cl2 auth maxMove_12 1 prev0)
        (test_12_slow cb1 cb2 cl1 cl2) auth 3) \<and>
   maxMove_8 = 5 \<and> maxMove_12 = 3"
proof (intro impI conjI; (elim conjE)?)
  show "maxMove_8 = 5" by (simp add: maxMove_8_def)
  show "maxMove_12 = 3" by (simp add: maxMove_12_def)
next
  assume a: "list_all wf_move auth" "list_all nonempty auth" and c: "cl1 < 8" "cl2 < 8"
  have s1: "search_spec (send (test_8 cb1 cb2 cl1 cl2) auth mx 1 prev0)
        (test_8 cb1 cb2 cl1 cl2) auth mx \<and>
      deepening_spec (send (test_8 cb1 cb2 cl1 cl2) auth mx 1 prev0)
        (test_8 cb1 cb2 cl1 cl2) auth mx" for mx
    by (rule send_both [OF a]) (rule test_8_no_error [OF c])
  have s2: "search_spec (send (test_8_slow cb1 cb2 cl1 cl2) auth mx 1 prev0)
        (test_8_slow cb1 cb2 cl1 cl2) auth mx \<and>
      deepening_spec (send (test_8_slow cb1 cb2 cl1 cl2) auth mx 1 prev0)
        (test_8_slow cb1 cb2 cl1 cl2) auth mx" for mx
    by (rule send_both [OF a]) (rule test_8_slow_no_error [OF c])
  show "search_spec (send_8 cb1 cb2 cl1 cl2 auth maxMove 1 prev0) (test_8 cb1 cb2 cl1 cl2)
      auth maxMove"
    unfolding send_8_def using s1 by blast
  show "deepening_spec (send_8 cb1 cb2 cl1 cl2 auth maxMove 1 prev0) (test_8 cb1 cb2 cl1 cl2)
      auth maxMove"
    unfolding send_8_def using s1 by blast
  show "search_spec (send_8_slow cb1 cb2 cl1 cl2 auth maxMove 1 prev0)
      (test_8_slow cb1 cb2 cl1 cl2) auth maxMove"
    unfolding send_8_slow_def using s2 by blast
  show "deepening_spec (send_8_slow cb1 cb2 cl1 cl2 auth maxMove 1 prev0)
      (test_8_slow cb1 cb2 cl1 cl2) auth maxMove"
    unfolding send_8_slow_def using s2 by blast
  show "deepening_spec (send_8 cb1 cb2 cl1 cl2 auth maxMove_8 1 prev0) (test_8 cb1 cb2 cl1 cl2)
      auth 5"
    unfolding send_8_def maxMove_8_def using s1 by blast
  show "deepening_spec (send_8_slow cb1 cb2 cl1 cl2 auth maxMove_8 1 prev0)
      (test_8_slow cb1 cb2 cl1 cl2) auth 5"
    unfolding send_8_slow_def maxMove_8_def using s2 by blast
next
  assume a: "list_all wf_move auth" "list_all nonempty auth" and c: "cl1 < 12" "cl2 < 12"
  have s1: "search_spec (send (test_12 cb1 cb2 cb3 cl1 cl2) auth mx 1 prev0)
        (test_12 cb1 cb2 cb3 cl1 cl2) auth mx \<and>
      deepening_spec (send (test_12 cb1 cb2 cb3 cl1 cl2) auth mx 1 prev0)
        (test_12 cb1 cb2 cb3 cl1 cl2) auth mx" for mx
    by (rule send_both [OF a]) (rule test_12_no_error [OF c])
  have s2: "search_spec (send (test_12_slow cb1 cb2 cl1 cl2) auth mx 1 prev0)
        (test_12_slow cb1 cb2 cl1 cl2) auth mx \<and>
      deepening_spec (send (test_12_slow cb1 cb2 cl1 cl2) auth mx 1 prev0)
        (test_12_slow cb1 cb2 cl1 cl2) auth mx" for mx
    by (rule send_both [OF a]) (rule test_12_slow_no_error [OF c])
  show "search_spec (send_12 cb1 cb2 cb3 cl1 cl2 auth maxMove 1 prev0)
      (test_12 cb1 cb2 cb3 cl1 cl2) auth maxMove"
    unfolding send_12_def using s1 by blast
  show "deepening_spec (send_12 cb1 cb2 cb3 cl1 cl2 auth maxMove 1 prev0)
      (test_12 cb1 cb2 cb3 cl1 cl2) auth maxMove"
    unfolding send_12_def using s1 by blast
  show "search_spec (send_12_slow cb1 cb2 cl1 cl2 auth maxMove 1 prev0)
      (test_12_slow cb1 cb2 cl1 cl2) auth maxMove"
    unfolding send_12_slow_def using s2 by blast
  show "deepening_spec (send_12_slow cb1 cb2 cl1 cl2 auth maxMove 1 prev0)
      (test_12_slow cb1 cb2 cl1 cl2) auth maxMove"
    unfolding send_12_slow_def using s2 by blast
  show "deepening_spec (send_12 cb1 cb2 cb3 cl1 cl2 auth maxMove_12 1 prev0)
      (test_12 cb1 cb2 cb3 cl1 cl2) auth 3"
    unfolding send_12_def maxMove_12_def using s1 by blast
  show "deepening_spec (send_12_slow cb1 cb2 cl1 cl2 auth maxMove_12 1 prev0)
      (test_12_slow cb1 cb2 cl1 cl2) auth 3"
    unfolding send_12_slow_def maxMove_12_def using s2 by blast
qed

theorem connector_search_terminates_witness:
  "list_all wf_move [F, U] \<and> list_all nonempty [F, U] \<and>
   send_8_slow 0 4 3 0 [F, U] maxMove_8 1 prev0 = Inr (Some (mul U (mul F (move_seq [])))) \<and>
   (\<exists>k. 1 \<le> k \<and> k \<le> 5 \<and> mul U (mul F (move_seq [])) \<in> depth_candidates [F, U] k \<and>
      test_8_slow 0 4 3 0 (mul U (mul F (move_seq []))) = Inr True) \<and>
   list_all wf_move fund_l \<and> list_all nonempty fund_l \<and>
   send_8 1 3 0 7 fund_l 1 1 prev0 = Inr None"
proof -
  have wf: "list_all wf_move [F, U]" by code_simp
  have ne: "list_all nonempty [F, U]" by code_simp
  have v: "send_8_slow 0 4 3 0 [F, U] maxMove_8 1 prev0 = Inr (Some (mul U (mul F (move_seq []))))"
    by code_simp
  have c: "(3::nat) < 8 \<and> (0::nat) < 8" by simp
  have "deepening_spec (send_8_slow 0 4 3 0 [F, U] maxMove_8 1 prev0) (test_8_slow 0 4 3 0)
      [F, U] 5"
    using connector_search_terminates [where auth = "[F, U]" and ?cl1.0 = 3 and ?cl2.0 = 0
        and ?cb1.0 = 0 and ?cb2.0 = 4] wf ne c by blast
  then have k: "\<exists>k. 1 \<le> k \<and> k \<le> 5 \<and> mul U (mul F (move_seq [])) \<in> depth_candidates [F, U] k \<and>
      test_8_slow 0 4 3 0 (mul U (mul F (move_seq []))) = Inr True"
    unfolding deepening_spec_def using v by blast
  have e: "test_8 1 3 0 7 (compose_all []) \<noteq> Inr True" by code_simp
  have s: "list_all (\<lambda>m. test_8 1 3 0 7 (compose_all [m]) \<noteq> Inr True) fund_l" by code_simp
  have all: "\<forall>ms. set ms \<subseteq> set fund_l \<longrightarrow> length ms \<le> 1 \<longrightarrow>
      test_8 1 3 0 7 (compose_all ms) \<noteq> Inr True"
  proof (intro allI impI)
    fix ms :: "move list" assume sub: "set ms \<subseteq> set fund_l" and len: "length ms \<le> 1"
    show "test_8 1 3 0 7 (compose_all ms) \<noteq> Inr True"
    proof (cases ms)
      case Nil
      then show ?thesis using e by simp
    next
      case (Cons m ms')
      then have "ms = [m]" "m \<in> set fund_l" using len sub by simp_all
      then show ?thesis using s by (simp add: list_all_iff)
    qed
  qed
  have "search_spec (send_8 1 3 0 7 fund_l 1 1 prev0) (test_8 1 3 0 7) fund_l 1"
  proof -
    have "(0::nat) < 8 \<and> (7::nat) < 8" by simp
    then show ?thesis
      using connector_search_terminates [where auth = fund_l and ?cl1.0 = 0 and ?cl2.0 = 7
          and ?cb1.0 = 1 and ?cb2.0 = 3 and maxMove = 1] wf_fund_l nonempty_fund_l by blast
  qed
  then have n: "send_8 1 3 0 7 fund_l 1 1 prev0 = Inr None"
    using all unfolding search_spec_def by blast
  show ?thesis using wf ne v k wf_fund_l nonempty_fund_l n by blast
qed

section \<open>The searches of the four phases succeed\<close>

text \<open>
  For each authorized move of \<open>fund_l\<close>: its corner and its edge position matrix, the
  first and the last token of its decomposition.
\<close>

definition fund_tab :: "(matrix \<times> matrix \<times> token \<times> token) list" where
  "fund_tab =
     [([4, 1, 0, 3, 6, 5, 2, 7], [0, 4, 2, 3, 9, 5, 1, 7, 8, 6, 10, 11], ''F'', ''F''),
      ([6, 1, 4, 3, 2, 5, 0, 7], [0, 9, 2, 3, 6, 5, 4, 7, 8, 1, 10, 11], ''F'', ''F''),
      ([2, 1, 6, 3, 0, 5, 4, 7], [0, 6, 2, 3, 1, 5, 9, 7, 8, 4, 10, 11], ''f'', ''f''),
      ([0, 1, 2, 3, 5, 7, 4, 6], [0, 1, 2, 3, 4, 5, 6, 7, 10, 8, 11, 9], ''R'', ''R''),
      ([0, 1, 2, 3, 7, 6, 5, 4], [0, 1, 2, 3, 4, 5, 6, 7, 11, 10, 9, 8], ''R'', ''R''),
      ([0, 1, 2, 3, 6, 4, 7, 5], [0, 1, 2, 3, 4, 5, 6, 7, 9, 11, 8, 10], ''r'', ''r''),
      ([0, 1, 6, 2, 4, 5, 7, 3], [0, 1, 2, 6, 4, 5, 11, 3, 8, 9, 10, 7], ''U'', ''U''),
      ([0, 1, 7, 6, 4, 5, 3, 2], [0, 1, 2, 11, 4, 5, 7, 6, 8, 9, 10, 3], ''U'', ''U''),
      ([0, 1, 3, 7, 4, 5, 2, 6], [0, 1, 2, 7, 4, 5, 3, 11, 8, 9, 10, 6], ''u'', ''u''),
      ([0, 3, 2, 7, 4, 1, 6, 5], [0, 1, 7, 3, 4, 2, 6, 10, 8, 9, 5, 11], ''B'', ''B''),
      ([0, 7, 2, 5, 4, 3, 6, 1], [0, 1, 10, 3, 4, 7, 6, 5, 8, 9, 2, 11], ''B'', ''B''),
      ([0, 5, 2, 1, 4, 7, 6, 3], [0, 1, 5, 3, 4, 10, 6, 2, 8, 9, 7, 11], ''b'', ''b''),
      ([2, 0, 3, 1, 4, 5, 6, 7], [1, 3, 0, 2, 4, 5, 6, 7, 8, 9, 10, 11], ''L'', ''L''),
      ([3, 2, 1, 0, 4, 5, 6, 7], [3, 2, 1, 0, 4, 5, 6, 7, 8, 9, 10, 11], ''L'', ''L''),
      ([1, 3, 0, 2, 4, 5, 6, 7], [2, 0, 3, 1, 4, 5, 6, 7, 8, 9, 10, 11], ''l'', ''l''),
      ([1, 5, 2, 3, 0, 4, 6, 7], [5, 1, 2, 3, 0, 8, 6, 7, 4, 9, 10, 11], ''D'', ''D''),
      ([5, 4, 2, 3, 1, 0, 6, 7], [8, 1, 2, 3, 5, 4, 6, 7, 0, 9, 10, 11], ''D'', ''D''),
      ([4, 0, 2, 3, 5, 1, 6, 7], [4, 1, 2, 3, 8, 0, 6, 7, 5, 9, 10, 11], ''d'', ''d'')]"

lemma fund_tab_eq:
  "map (\<lambda>m. (A8 m, A12 m, hd (decompo m), last (decompo m))) fund_l = fund_tab"
  by code_simp

lemma length_fund_l: "length fund_l = 18"
  by (simp add: fund_l_def)

text \<open>The steps of a product of authorized moves, given by their indices in \<open>fund_l\<close>.\<close>

definition steps :: "(matrix \<times> matrix \<Rightarrow> matrix) \<Rightarrow> nat list \<Rightarrow> (matrix \<times> token \<times> token) list" where
  "steps sel ws = map (\<lambda>i. case fund_tab ! i of (a8, a12, ft, lt) \<Rightarrow> (sel (a8, a12), ft, lt)) ws"

definition checkw :: "nat \<Rightarrow> (matrix \<times> matrix \<Rightarrow> matrix) \<Rightarrow> (matrix \<Rightarrow> bool) \<Rightarrow> nat \<Rightarrow> nat list \<Rightarrow> bool" where
  "checkw n sel okp mx ws \<longleftrightarrow>
     list_all (\<lambda>i. i < 18) ws \<and> length ws \<le> mx \<and>
     (case reach n (steps sel ws) of None \<Rightarrow> False | Some p \<Rightarrow> okp p)"

lemma fund_tab_nth:
  "i < 18 \<Longrightarrow> fund_tab ! i =
     (A8 (fund_l ! i), A12 (fund_l ! i), hd (decompo (fund_l ! i)), last (decompo (fund_l ! i)))"
proof -
  assume "i < 18"
  then have "i < length fund_l" by (simp add: length_fund_l)
  then have "map (\<lambda>m. (A8 m, A12 m, hd (decompo m), last (decompo m))) fund_l ! i =
     (A8 (fund_l ! i), A12 (fund_l ! i), hd (decompo (fund_l ! i)), last (decompo (fund_l ! i)))"
    by (rule nth_map)
  then show ?thesis by (simp only: fund_tab_eq)
qed

lemma steps_fund:
  assumes "list_all (\<lambda>i. i < 18) ws"
  shows "map (\<lambda>m. (A8 m, hd (decompo m), last (decompo m))) (map ((!) fund_l) ws) = steps fst ws"
    "map (\<lambda>m. (A12 m, hd (decompo m), last (decompo m))) (map ((!) fund_l) ws) = steps snd ws"
  using assms by (auto simp: steps_def list_all_iff fund_tab_nth)

text \<open>The conditions of the four tests, on the position matrix.\<close>

definition ok8 :: "nat \<Rightarrow> nat \<Rightarrow> nat \<Rightarrow> nat \<Rightarrow> matrix \<Rightarrow> bool" where
  "ok8 cb1 cb2 cl1 cl2 p \<longleftrightarrow> cl1 < 8 \<and> cl2 < 8 \<and>
     ((p ! cl1 = cb1 \<and> p ! cl2 = cb2) \<or> (p ! cl1 = cb2 \<and> p ! cl2 = cb1))"

definition ok_slow :: "nat \<Rightarrow> nat \<Rightarrow> nat \<Rightarrow> nat \<Rightarrow> nat \<Rightarrow> matrix \<Rightarrow> bool" where
  "ok_slow n cb1 cb2 cl1 cl2 p \<longleftrightarrow> cl1 < n \<and> cl2 < n \<and> p ! cl1 = cb1 \<and> p ! cl2 = cb2"

definition ok12 :: "nat \<Rightarrow> nat \<Rightarrow> nat \<Rightarrow> nat \<Rightarrow> nat \<Rightarrow> matrix \<Rightarrow> bool" where
  "ok12 cb1 cb2 cb3 cl1 cl2 p \<longleftrightarrow> cl1 < 12 \<and> cl2 < 12 \<and>
     p ! cl1 = cb1 \<and> p ! cl2 = cb2 \<and> cb3 \<in> set (drop (cl1 + 1) p)"

lemma perm_list_length: "perm_list n p \<Longrightarrow> length p = n"
  by (simp add: perm_list_def)

lemma mat_vec_perm: "perm_list n p \<Longrightarrow> mat_vec p [0..<n] = p"
  by (auto simp: mat_vec_def perm_list_def list_all_iff intro: map_idI)

lemma test_8_ok:
  "wf_move x \<Longrightarrow> cl1 < 8 \<Longrightarrow> cl2 < 8 \<Longrightarrow>
   (test_8 cb1 cb2 cl1 cl2 x = Inr True) = ok8 cb1 cb2 cl1 cl2 (A8 x)"
  by (auto simp: test_8_def ok8_def wf_move_def mat_vec_perm get_def Let_def
      dest: perm_list_length split: if_splits)

lemma test_8_slow_ok:
  "wf_move x \<Longrightarrow> cl1 < 8 \<Longrightarrow> cl2 < 8 \<Longrightarrow>
   (test_8_slow cb1 cb2 cl1 cl2 x = Inr True) = ok_slow 8 cb1 cb2 cl1 cl2 (A8 x)"
  by (auto simp: test_8_slow_def ok_slow_def wf_move_def mat_vec_perm get_def Let_def
      dest: perm_list_length split: if_splits)

lemma test_12_ok:
  "wf_move x \<Longrightarrow> cl1 < 12 \<Longrightarrow> cl2 < 12 \<Longrightarrow>
   (test_12 cb1 cb2 cb3 cl1 cl2 x = Inr True) = ok12 cb1 cb2 cb3 cl1 cl2 (A12 x)"
  by (auto simp: test_12_def ok12_def wf_move_def mat_vec_perm get_def Let_def
      dest: perm_list_length split: if_splits)

lemma test_12_slow_ok:
  "wf_move x \<Longrightarrow> cl1 < 12 \<Longrightarrow> cl2 < 12 \<Longrightarrow>
   (test_12_slow cb1 cb2 cl1 cl2 x = Inr True) = ok_slow 12 cb1 cb2 cl1 cl2 (A12 x)"
  by (auto simp: test_12_slow_def ok_slow_def wf_move_def mat_vec_perm get_def Let_def
      dest: perm_list_length split: if_splits)

text \<open>What a search over \<open>fund_l\<close> returns is a generated move that passes the test.\<close>

lemma send_fund_sound:
  assumes noerr: "\<And>x. sized x \<Longrightarrow> \<exists>t. test x = Inr t"
    and res: "send test fund_l mx 1 prev0 = Inr (Some G)"
  shows "G \<in> moves \<and> test G = Inr True"
proof -
  have "search_spec (send test fund_l mx 1 prev0) test fund_l mx"
    by (rule send_bounded [OF wf_fund_l nonempty_fund_l noerr])
  then obtain ms where "set ms \<subseteq> set fund_l" "G = compose_all ms" "test G = Inr True"
    using res unfolding search_spec_def by blast
  then show ?thesis using compose_all_moves [of ms] fund_l_moves by blast
qed

lemma send_fund_value:
  assumes noerr: "\<And>x. sized x \<Longrightarrow> \<exists>t. test x = Inr t"
  shows "\<exists>res. send test fund_l mx 1 prev0 = Inr res"
proof -
  have "search_spec (send test fund_l mx 1 prev0) test fund_l mx"
    by (rule send_bounded [OF wf_fund_l nonempty_fund_l noerr])
  then show ?thesis unfolding search_spec_def by blast
qed

lemma send_fund_found:
  assumes noerr: "\<And>x. sized x \<Longrightarrow> \<exists>t. test x = Inr t"
    and hom: "\<And>m g. pj (mul m g) = mat_mul (pj m) (pj g)"
    and pid: "pj (move_seq []) = eye n"
    and st: "\<And>ws. list_all (\<lambda>i. i < 18) ws \<Longrightarrow>
      map (\<lambda>m. (pj m, hd (decompo m), last (decompo m))) (map ((!) fund_l) ws) = steps sel ws"
    and iff: "\<And>x. wf_move x \<Longrightarrow> (test x = Inr True) = okp (pj x)"
    and mx: "1 \<le> mx" and chk: "checkw n sel okp mx ws"
  shows "\<exists>G. send test fund_l mx 1 prev0 = Inr (Some G) \<and> G \<in> moves \<and> okp (pj G)"
proof -
  have ws: "list_all (\<lambda>i. i < 18) ws" and len: "length ws \<le> mx" using chk by (simp_all add: checkw_def)
  obtain p where p: "reach n (steps sel ws) = Some p" "okp p"
    using chk by (auto simp: checkw_def split: option.splits)
  let ?ms = "map ((!) fund_l) ws"
  have sub: "set ?ms \<subseteq> set fund_l" using ws by (auto simp: list_all_iff length_fund_l)
  note tot = total_on_passes [OF wf_fund_l noerr]
  have "\<exists>G. send test fund_l mx 1 prev0 = Inr (Some G)"
  proof (rule send_witness [OF tot nonempty_fund_l wf_fund_l hom pid sub _ mx])
    show "length ?ms \<le> mx" using len by simp
    show "reach n (map (\<lambda>m. (pj m, hd (decompo m), last (decompo m))) ?ms) = Some p"
      using p st [OF ws] by simp
    show "\<And>x. wf_move x \<Longrightarrow> pj x = p \<Longrightarrow> passes test x"
      using iff p by (simp add: passes_def)
  qed
  then obtain G where G: "send test fund_l mx 1 prev0 = Inr (Some G)" by blast
  have "G \<in> moves \<and> test G = Inr True" using noerr G by (rule send_fund_sound)
  then show ?thesis using G iff [of G] moves_legal [of G] legal_wf by blast
qed

subsection \<open>The products found for the queries of \<open>solve\<close>\<close>

definition tab1 :: "((nat \<times> nat) \<times> nat list) list" where
  "tab1 =
    [((0, 1), [14]), ((0, 2), [13]), ((0, 3), [15]), ((0, 4), [13, 2]), ((0, 5), [14, 9]),
     ((0, 6), [15, 7]), ((0, 7), [15, 6]), ((1, 2), [8]), ((1, 3), []), ((1, 4), [7, 0]),
     ((1, 5), [9]), ((1, 6), [7]), ((1, 7), [6]), ((2, 3), [12]), ((2, 4), [16, 8]),
     ((2, 5), [10, 7]), ((2, 6), [13, 0]), ((2, 7), [8, 10]), ((3, 4), [16]),
     ((3, 5), [17]), ((3, 6), [12, 0]), ((3, 7), [11]), ((4, 5), [10, 3]),
     ((4, 6), [13, 1]), ((4, 7), [16, 6]), ((5, 6), [10, 6]), ((5, 7), [10]),
     ((6, 7), [10, 5])]"

definition tab2 :: "(nat \<times> nat list) list" where
  "tab2 =
    [(1, [6, 9]), (2, []), (3, [6]), (4, [7, 4]), (5, [7, 3]), (6, [8]), (7, [7])]"

definition tab3 :: "((nat \<times> nat) \<times> nat \<times> nat list) list" where
  "tab3 =
    [((0, 1), (0, [8, 2])), ((0, 2), (0, [6, 9])), ((0, 3), (0, [])),
     ((0, 4), (0, [8, 1])), ((0, 5), (0, [6, 10])), ((0, 6), (0, [8])), ((0, 7), (0, [6])),
     ((0, 8), (0, [7, 4])), ((0, 9), (0, [8, 0])), ((0, 10), (0, [7, 3])),
     ((0, 11), (0, [7])), ((1, 2), (0, [14])), ((1, 3), (0, [15, 0])),
     ((1, 4), (0, [13, 15, 12])), ((1, 5), (0, [14, 9])), ((1, 6), (0, [8, 14])),
     ((1, 7), (0, [14, 11])), ((1, 8), (0, [14, 10, 3])), ((1, 9), (0, [15, 8, 0])),
     ((1, 10), (0, [14, 10])), ((1, 11), (0, [7, 14])), ((2, 3), (0, [17, 11])),
     ((2, 4), (0, [12, 2])), ((2, 5), (0, [6, 10, 12])), ((2, 6), (0, [12, 0])),
     ((2, 7), (0, [6, 12])), ((2, 8), (0, [12, 1, 5])), ((2, 9), (0, [12, 1])),
     ((2, 10), (0, [12, 1, 4])), ((2, 11), (0, [7, 12, 0])), ((3, 4), (0, [13, 15])),
     ((3, 5), (0, [13, 17])), ((3, 6), (0, [8, 13])), ((3, 7), (0, [6, 13])),
     ((3, 8), (0, [13, 16])), ((3, 9), (0, [8, 13, 0])), ((3, 10), (0, [13, 16, 5])),
     ((3, 11), (0, [13, 16, 4])), ((4, 5), (0, [14, 9, 2])), ((4, 6), (0, [15, 8])),
     ((4, 7), (0, [15, 6])), ((4, 8), (0, [8, 1, 15])), ((4, 9), (0, [8, 0, 15])),
     ((4, 10), (0, [14, 10, 2])), ((4, 11), (0, [15, 3, 7])), ((5, 6), (0, [17, 8])),
     ((5, 7), (0, [17, 6])), ((5, 8), (0, [15, 13, 16])), ((5, 9), (0, [17, 8, 0])),
     ((5, 10), (0, [6, 11, 17])), ((5, 11), (0, [17, 3, 7])), ((6, 7), (0, [14, 11, 0])),
     ((6, 8), (0, [13, 16, 8])), ((6, 9), (0, [8, 14, 0])), ((6, 10), (0, [14, 10, 0])),
     ((6, 11), (1, [11, 12, 8])), ((7, 8), (3, [5, 11])), ((7, 9), (0, [12, 11, 1])),
     ((7, 10), (0, [17, 14, 10])), ((7, 11), (1, [8, 14, 10])), ((8, 9), (0, [16, 12, 1])),
     ((8, 10), (0, [16, 14, 10])), ((8, 11), (0, [3, 16, 7])), ((9, 10), (0, [14, 10, 1])),
     ((9, 11), (0, [16, 3, 7]))]"

definition tab4 :: "(nat \<times> nat list) list" where
  "tab4 =
    [(1, [8, 2]), (2, [6, 9]), (3, []), (4, [8, 1]), (5, [6, 10]), (6, [8]), (7, [6]),
     (8, [7, 4]), (9, [8, 0]), (10, [7, 3]), (11, [7])]"

definition zones :: "nat list list" where
  "zones = [[0, 3, 11], [5, 6, 7], [4, 6, 7], [2, 9, 10]]"

lemma check1:
  "list_all (\<lambda>i. list_all (\<lambda>j.
      case map_of tab1 (i, j) of None \<Rightarrow> False
      | Some ws \<Rightarrow> checkw 8 fst (ok8 1 3 i j) maxMove_8 ws) [i + 1..<8]) [0..<8]"
  by code_simp

lemma check2:
  "list_all (\<lambda>i. case map_of tab2 i of None \<Rightarrow> False
      | Some ws \<Rightarrow> checkw 8 fst (ok_slow 8 0 2 0 i) maxMove_8 ws) [1..<8]"
  by code_simp

lemma check3:
  "list_all (\<lambda>i. list_all (\<lambda>j.
      case map_of tab3 (i, j) of None \<Rightarrow> False
      | Some (k, ws) \<Rightarrow> k < 4 \<and>
          checkw 12 snd (ok12 (zones ! k ! 0) (zones ! k ! 1) (zones ! k ! 2) i j) maxMove_12 ws)
      [i + 1..<12]) [0..<10]"
  by code_simp

lemma check4:
  "list_all (\<lambda>i. case map_of tab4 i of None \<Rightarrow> False
      | Some ws \<Rightarrow> checkw 12 snd (ok_slow 12 0 3 0 i) maxMove_12 ws) [1..<12]"
  by code_simp

section \<open>Conjugates\<close>

lemma mat_vec_eq_mul: "mat_vec P y = mat_mul P y"
  by (simp add: mat_vec_def mat_mul_def)

lemma mat_inv_nth: "perm_list n g \<Longrightarrow> j < n \<Longrightarrow> mat_inv g ! (g ! j) = j"
proof -
  assume g: "perm_list n g" and j: "j < n"
  have "g ! j < length g" using g j by (simp add: perm_list_nth_less perm_list_length)
  then have "mat_inv g ! (g ! j) = index_of g (g ! j)" by (simp add: mat_inv_def)
  also have "\<dots> = j" using g j by (simp add: index_of_nth perm_list_def)
  finally show ?thesis .
qed

lemma conj_nth:
  assumes "perm_list n g" "q < n"
  shows "mat_mul (mat_mul g s) (mat_inv g) ! q = mat_inv g ! (s ! (g ! q))"
  using assms by (simp add: mat_mul_nth perm_list_def)

lemma conj_fix:
  assumes "perm_list n g" "q < n" "s ! (g ! q) = g ! q"
  shows "mat_mul (mat_mul g s) (mat_inv g) ! q = q"
  using assms by (simp add: conj_nth mat_inv_nth)

lemma conj_send:
  assumes "perm_list n g" "i < n" "j < n" "s ! (g ! i) = g ! j"
  shows "mat_mul (mat_mul g s) (mat_inv g) ! i = j"
  using assms by (simp add: conj_nth mat_inv_nth)

lemma conj_eye:
  assumes "perm_list n g"
  shows "mat_mul (mat_mul g (eye n)) (mat_inv g) = eye n"
  using assms by (simp add: mat_mul_eye_right mat_mul_inv_right perm_list_def)

lemma conj_perm:
  assumes "perm_list n g" "perm_list n s"
  shows "perm_list n (mat_mul (mat_mul g s) (mat_inv g))"
  using assms by (simp add: perm_list_mul perm_list_inv)

lemma perm_list_inj: "perm_list n p \<Longrightarrow> i < n \<Longrightarrow> j < n \<Longrightarrow> p ! i = p ! j \<Longrightarrow> i = j"
  by (simp add: perm_list_def nth_eq_iff_index_eq)

text \<open>The twist that a conjugate of a move with identity positions gives to a slot.\<close>

lemma tw_conj:
  assumes w: "0 < w" and g: "perm_list n g" and og: "perm_list (w * n) og"
    and sg: "bstruct w n g og" and oa: "length oa = w * n"
    and sa: "bstruct w n (eye n) oa" and k: "k < n"
  shows "tw w (mat_mul (mat_mul og oa) (mat_inv og)) k = tw w oa (g ! k)"
proof -
  have lg: "length og = w * n" using og by (simp add: perm_list_def)
  have ge: "mat_mul g (eye n) = g" using g by (simp add: mat_mul_eye_right perm_list_def)
  have s1: "bstruct w n g (mat_mul og oa)"
    using bstruct_mul [OF w g lg sg sa] by (simp add: ge)
  have s2: "bstruct w n (mat_inv g) (mat_inv og)" by (rule bstruct_inv [OF w g og sg])
  have gk: "g ! k < n" using g k by (rule perm_list_nth_less)
  have t1: "tw w (mat_mul og oa) k = (tw w og k + tw w oa (g ! k)) mod w"
    by (rule tw_mul [OF w g lg sg sa k])
  have t2: "tw w (mat_inv og) (g ! k) = (w - tw w og k) mod w"
    using tw_inv [OF w g og sg gk] by (simp add: mat_inv_nth [OF g k])
  have l1: "length (mat_mul og oa) = w * n" by (simp add: lg)
  have "tw w (mat_mul (mat_mul og oa) (mat_inv og)) k
      = (tw w (mat_mul og oa) k + tw w (mat_inv og) (g ! k)) mod w"
    by (rule tw_mul [OF w g l1 s1 s2 k])
  also have "\<dots> = ((tw w og k + tw w oa (g ! k)) + (w - tw w og k)) mod w"
    by (simp only: t1 t2 mod_add_eq)
  also have "\<dots> = (tw w oa (g ! k) + w) mod w"
    using tw_less [OF w, of og k] by (simp add: algebra_simps)
  also have "\<dots> = tw w oa (g ! k)" using tw_less [OF w, of oa "g ! k"] by simp
  finally show ?thesis .
qed

section \<open>The queries of \<open>solve\<close>\<close>

lemma query1:
  assumes "i < j" "j < 8"
  shows "\<exists>G. send_8 1 3 i j fund_l maxMove_8 1 prev0 = Inr (Some G) \<and> G \<in> moves \<and>
    ok8 1 3 i j (A8 G)"
proof -
  have "i \<in> set [0..<8]" "j \<in> set [i + 1..<8]" using assms by simp_all
  then have "case map_of tab1 (i, j) of None \<Rightarrow> False
      | Some ws \<Rightarrow> checkw 8 fst (ok8 1 3 i j) maxMove_8 ws"
    using check1 unfolding list_all_iff by blast
  then obtain ws where ws: "checkw 8 fst (ok8 1 3 i j) maxMove_8 ws"
    by (auto split: option.splits)
  have ij: "i < 8" "j < 8" using assms by simp_all
  have "\<exists>G. send (test_8 1 3 i j) fund_l maxMove_8 1 prev0 = Inr (Some G) \<and> G \<in> moves \<and>
      ok8 1 3 i j (A8 G)"
  proof (rule send_fund_found [where pj = A8 and n = 8 and sel = fst and ws = ws])
    show "\<And>x. sized x \<Longrightarrow> \<exists>t. test_8 1 3 i j x = Inr t" using ij by (rule test_8_no_error)
    show "\<And>m g. A8 (mul m g) = mat_mul (A8 m) (A8 g)" by simp
    show "A8 (move_seq []) = eye 8" by simp
    show "\<And>ws. list_all (\<lambda>i. i < 18) ws \<Longrightarrow>
      map (\<lambda>m. (A8 m, hd (decompo m), last (decompo m))) (map ((!) fund_l) ws) = steps fst ws"
      by (rule steps_fund)
    show "\<And>x. wf_move x \<Longrightarrow> (test_8 1 3 i j x = Inr True) = ok8 1 3 i j (A8 x)"
      using ij by (simp add: test_8_ok)
    show "1 \<le> maxMove_8" by (simp add: maxMove_8_def)
    show "checkw 8 fst (ok8 1 3 i j) maxMove_8 ws" by (rule ws)
  qed
  then show ?thesis by (simp add: send_8_def)
qed

lemma query2:
  assumes "1 \<le> i" "i < 8"
  shows "\<exists>G. send_8_slow 0 2 0 i fund_l maxMove_8 1 prev0 = Inr (Some G) \<and> G \<in> moves \<and>
    ok_slow 8 0 2 0 i (A8 G)"
proof -
  have "i \<in> set [1..<8]" using assms by simp
  then have "case map_of tab2 i of None \<Rightarrow> False
      | Some ws \<Rightarrow> checkw 8 fst (ok_slow 8 0 2 0 i) maxMove_8 ws"
    using check2 unfolding list_all_iff by blast
  then obtain ws where ws: "checkw 8 fst (ok_slow 8 0 2 0 i) maxMove_8 ws"
    by (auto split: option.splits)
  have ij: "(0::nat) < 8" "i < 8" using assms by simp_all
  have "\<exists>G. send (test_8_slow 0 2 0 i) fund_l maxMove_8 1 prev0 = Inr (Some G) \<and> G \<in> moves \<and>
      ok_slow 8 0 2 0 i (A8 G)"
  proof (rule send_fund_found [where pj = A8 and n = 8 and sel = fst and ws = ws])
    show "\<And>x. sized x \<Longrightarrow> \<exists>t. test_8_slow 0 2 0 i x = Inr t"
      using ij by (rule test_8_slow_no_error)
    show "\<And>m g. A8 (mul m g) = mat_mul (A8 m) (A8 g)" by simp
    show "A8 (move_seq []) = eye 8" by simp
    show "\<And>ws. list_all (\<lambda>i. i < 18) ws \<Longrightarrow>
      map (\<lambda>m. (A8 m, hd (decompo m), last (decompo m))) (map ((!) fund_l) ws) = steps fst ws"
      by (rule steps_fund)
    show "\<And>x. wf_move x \<Longrightarrow> (test_8_slow 0 2 0 i x = Inr True) = ok_slow 8 0 2 0 i (A8 x)"
      using ij by (simp add: test_8_slow_ok)
    show "1 \<le> maxMove_8" by (simp add: maxMove_8_def)
    show "checkw 8 fst (ok_slow 8 0 2 0 i) maxMove_8 ws" by (rule ws)
  qed
  then show ?thesis by (simp add: send_8_slow_def)
qed

lemma query4:
  assumes "1 \<le> i" "i < 12"
  shows "\<exists>G. send_12_slow 0 3 0 i fund_l maxMove_12 1 prev0 = Inr (Some G) \<and> G \<in> moves \<and>
    ok_slow 12 0 3 0 i (A12 G)"
proof -
  have "i \<in> set [1..<12]" using assms by simp
  then have "case map_of tab4 i of None \<Rightarrow> False
      | Some ws \<Rightarrow> checkw 12 snd (ok_slow 12 0 3 0 i) maxMove_12 ws"
    using check4 unfolding list_all_iff by blast
  then obtain ws where ws: "checkw 12 snd (ok_slow 12 0 3 0 i) maxMove_12 ws"
    by (auto split: option.splits)
  have ij: "(0::nat) < 12" "i < 12" using assms by simp_all
  have "\<exists>G. send (test_12_slow 0 3 0 i) fund_l maxMove_12 1 prev0 = Inr (Some G) \<and> G \<in> moves \<and>
      ok_slow 12 0 3 0 i (A12 G)"
  proof (rule send_fund_found [where pj = A12 and n = 12 and sel = snd and ws = ws])
    show "\<And>x. sized x \<Longrightarrow> \<exists>t. test_12_slow 0 3 0 i x = Inr t"
      using ij by (rule test_12_slow_no_error)
    show "\<And>m g. A12 (mul m g) = mat_mul (A12 m) (A12 g)" by simp
    show "A12 (move_seq []) = eye 12" by simp
    show "\<And>ws. list_all (\<lambda>i. i < 18) ws \<Longrightarrow>
      map (\<lambda>m. (A12 m, hd (decompo m), last (decompo m))) (map ((!) fund_l) ws) = steps snd ws"
      by (rule steps_fund)
    show "\<And>x. wf_move x \<Longrightarrow> (test_12_slow 0 3 0 i x = Inr True) = ok_slow 12 0 3 0 i (A12 x)"
      using ij by (simp add: test_12_slow_ok)
    show "1 \<le> maxMove_12" by (simp add: maxMove_12_def)
    show "checkw 12 snd (ok_slow 12 0 3 0 i) maxMove_12 ws" by (rule ws)
  qed
  then show ?thesis by (simp add: send_12_slow_def)
qed

lemma query3_found:
  assumes "i < 10" "i < j" "j < 12"
  shows "\<exists>k<4. \<exists>G. send_12 (zones ! k ! 0) (zones ! k ! 1) (zones ! k ! 2) i j fund_l
      maxMove_12 1 prev0 = Inr (Some G)"
proof -
  have "i \<in> set [0..<10]" "j \<in> set [i + 1..<12]" using assms by simp_all
  then have "case map_of tab3 (i, j) of None \<Rightarrow> False
      | Some (k, ws) \<Rightarrow> k < 4 \<and>
          checkw 12 snd (ok12 (zones ! k ! 0) (zones ! k ! 1) (zones ! k ! 2) i j) maxMove_12 ws"
    using check3 unfolding list_all_iff by blast
  then obtain k ws where k: "k < 4"
    and ws: "checkw 12 snd (ok12 (zones ! k ! 0) (zones ! k ! 1) (zones ! k ! 2) i j) maxMove_12 ws"
    by (auto split: option.splits)
  let ?a = "zones ! k ! 0" and ?b = "zones ! k ! 1" and ?c = "zones ! k ! 2"
  have ij: "i < 12" "j < 12" using assms by simp_all
  have "\<exists>G. send (test_12 ?a ?b ?c i j) fund_l maxMove_12 1 prev0 = Inr (Some G) \<and> G \<in> moves \<and>
      ok12 ?a ?b ?c i j (A12 G)"
  proof (rule send_fund_found [where pj = A12 and n = 12 and sel = snd and ws = ws])
    show "\<And>x. sized x \<Longrightarrow> \<exists>t. test_12 ?a ?b ?c i j x = Inr t"
      using ij by (rule test_12_no_error)
    show "\<And>m g. A12 (mul m g) = mat_mul (A12 m) (A12 g)" by simp
    show "A12 (move_seq []) = eye 12" by simp
    show "\<And>ws. list_all (\<lambda>i. i < 18) ws \<Longrightarrow>
      map (\<lambda>m. (A12 m, hd (decompo m), last (decompo m))) (map ((!) fund_l) ws) = steps snd ws"
      by (rule steps_fund)
    show "\<And>x. wf_move x \<Longrightarrow> (test_12 ?a ?b ?c i j x = Inr True) = ok12 ?a ?b ?c i j (A12 x)"
      using ij by (simp add: test_12_ok)
    show "1 \<le> maxMove_12" by (simp add: maxMove_12_def)
    show "checkw 12 snd (ok12 ?a ?b ?c i j) maxMove_12 ws" by (rule ws)
  qed
  then show ?thesis using k by (auto simp: send_12_def)
qed

lemma query3_value:
  assumes "i < 12" "j < 12"
  shows "\<exists>res. send_12 a c e i j fund_l maxMove_12 1 prev0 = Inr res"
  unfolding send_12_def
  by (rule send_fund_value) (rule test_12_no_error [OF assms])

lemma query3_sound:
  assumes "i < 12" "j < 12"
    and "send_12 a c e i j fund_l maxMove_12 1 prev0 = Inr (Some G)"
  shows "G \<in> moves \<and> ok12 a c e i j (A12 G)"
proof -
  have "G \<in> moves \<and> test_12 a c e i j G = Inr True"
    using assms(3) unfolding send_12_def
    by (rule send_fund_sound [rotated]) (rule test_12_no_error [OF assms(1,2)])
  then show ?thesis using test_12_ok [OF legal_wf [OF moves_legal] assms(1,2)] by blast
qed

text \<open>The inner loop of \<open>solve_edge_pos\<close> stops at the first successful switcher.\<close>

lemma try_switchers_first:
  assumes val: "\<And>k. \<exists>res. send_12 (c_l ! k ! 0) (c_l ! k ! 1) (c_l ! k ! 2) i j auth
      maxMove_12 1 prev0 = Inr res"
  shows "\<exists>k\<in>set ks. \<exists>G. send_12 (c_l ! k ! 0) (c_l ! k ! 1) (c_l ! k ! 2) i j auth
      maxMove_12 1 prev0 = Inr (Some G) \<Longrightarrow>
    \<exists>k\<in>set ks. \<exists>G. send_12 (c_l ! k ! 0) (c_l ! k ! 1) (c_l ! k ! 2) i j auth
      maxMove_12 1 prev0 = Inr (Some G) \<and>
      try_switchers switcher_l c_l auth i j ks nm = Inr (Some (conjugate (switcher_l ! k) G))"
proof (induction ks)
  case Nil
  then show ?case by simp
next
  case (Cons k ks)
  obtain res where res: "send_12 (c_l ! k ! 0) (c_l ! k ! 1) (c_l ! k ! 2) i j auth
      maxMove_12 1 prev0 = Inr res" using val by blast
  show ?case
  proof (cases res)
    case None
    then have "\<exists>k\<in>set ks. \<exists>G. send_12 (c_l ! k ! 0) (c_l ! k ! 1) (c_l ! k ! 2) i j auth
      maxMove_12 1 prev0 = Inr (Some G)" using Cons.prems res by auto
    then show ?thesis using Cons.IH res None by auto
  next
    case (Some G)
    then show ?thesis using res by auto
  qed
qed

lemma query3:
  assumes "i < 10" "i < j" "j < 12"
  shows "\<exists>k<4. \<exists>G. G \<in> moves \<and> ok12 (zones ! k ! 0) (zones ! k ! 1) (zones ! k ! 2) i j (A12 G) \<and>
    try_switchers sl zones fund_l i j [0..<4] nm = Inr (Some (conjugate (sl ! k) G))"
proof -
  have ij: "i < 12" "j < 12" using assms by simp_all
  have "\<exists>k\<in>set [0..<4]. \<exists>G. send_12 (zones ! k ! 0) (zones ! k ! 1) (zones ! k ! 2) i j fund_l
      maxMove_12 1 prev0 = Inr (Some G)"
    using query3_found [OF assms] by auto
  then have "\<exists>k\<in>set [0..<4]. \<exists>G. send_12 (zones ! k ! 0) (zones ! k ! 1) (zones ! k ! 2) i j fund_l
      maxMove_12 1 prev0 = Inr (Some G) \<and>
      try_switchers sl zones fund_l i j [0..<4] nm = Inr (Some (conjugate (sl ! k) G))"
    by (rule try_switchers_first [rotated]) (rule query3_value [OF ij])
  then obtain k G where k: "k < 4"
    and G: "send_12 (zones ! k ! 0) (zones ! k ! 1) (zones ! k ! 2) i j fund_l
      maxMove_12 1 prev0 = Inr (Some G)"
    and t: "try_switchers sl zones fund_l i j [0..<4] nm = Inr (Some (conjugate (sl ! k) G))"
    by auto
  show ?thesis using k t query3_sound [OF ij G] by blast
qed

section \<open>Placing the cubies\<close>

lemma find_after_perm:
  assumes y: "perm_list n y" and i: "i < n" and pre: "\<forall>k<i. y ! k = k" and ne: "y ! i \<noteq> i"
  shows "\<exists>j. find_after y i = Inr j \<and> i < j \<and> j < n \<and> y ! j = i"
proof -
  have len: "length y = n" using y by (simp add: perm_list_def)
  have "i \<in> set y" using perm_list_set [OF y] i by simp
  then obtain j where j: "j < n" "y ! j = i" using len by (auto simp: in_set_conv_nth)
  have "i < j" using j pre ne by (metis linorder_neqE_nat)
  then have "j \<in> set (filter (\<lambda>k. y ! k = i) [i + 1..<length y])" using j len by simp
  then have "filter (\<lambda>k. y ! k = i) [i + 1..<length y] \<noteq> []"
    by (metis empty_iff list.set(1))
  then obtain j0 rest where e: "filter (\<lambda>k. y ! k = i) [i + 1..<length y] = j0 # rest"
    by (meson neq_Nil_conv)
  then have "j0 \<in> set (filter (\<lambda>k. y ! k = i) [i + 1..<length y])" by simp
  then have "i < j0" "j0 < n" "y ! j0 = i" using len by auto
  then show ?thesis using e by (simp add: find_after_def)
qed

text \<open>Applying a move that takes slot \<open>j\<close> to slot \<open>i\<close> and fixes the slots below \<open>i\<close>.\<close>

lemma place_apply:
  assumes c: "perm_list n c" and y: "perm_list n y" and ij: "i < j" "j < n"
    and ci: "c ! i = j" and cfix: "\<forall>k<i. c ! k = k"
    and pre: "\<forall>k<i. y ! k = k" and yj: "y ! j = i"
  shows "perm_list n (mat_vec c y) \<and> (\<forall>k<Suc i. mat_vec c y ! k = k)"
proof -
  have len: "length c = n" using c by (simp add: perm_list_def)
  have "perm_list n (mat_vec c y)" using c y by (simp add: mat_vec_eq_mul perm_list_mul)
  moreover have "mat_vec c y ! k = k" if "k < Suc i" for k
  proof -
    have kn: "k < n" using that ij by simp
    have e: "mat_vec c y ! k = y ! (c ! k)" using kn len by (simp add: mat_vec_def)
    show ?thesis
    proof (cases "k = i")
      case True
      then show ?thesis using e ci yj by simp
    next
      case False
      then have "k < i" using that by simp
      then show ?thesis using e cfix pre by simp
    qed
  qed
  ultimately show ?thesis by blast
qed

lemma prefix_eye:
  assumes "perm_list n y" "\<forall>k<n. y ! k = k"
  shows "y = eye n"
  using assms by (auto simp: eye_def perm_list_def intro: nth_equalityI)

lemma lt8_cases:
  "c < 8 \<Longrightarrow> c = 0 \<or> c = 1 \<or> c = 2 \<or> c = 3 \<or> c = 4 \<or> c = 5 \<or> c = 6 \<or> c = (7::nat)"
  by arith

lemma lt12_cases:
  "c < 12 \<Longrightarrow> c = 0 \<or> c = 1 \<or> c = 2 \<or> c = 3 \<or> c = 4 \<or> c = 5 \<or> c = 6 \<or> c = 7 \<or> c = 8
     \<or> c = 9 \<or> c = 10 \<or> c = (11::nat)"
  by arith

subsection \<open>Corner positions\<close>

lemma A8_M0: "A8 M0 = [0, 3, 2, 1, 4, 5, 6, 7]"
  by code_simp

lemma A8_M0_nth:
  "A8 M0 ! 1 = 3" "A8 M0 ! 3 = 1" "c < 8 \<Longrightarrow> c \<noteq> 1 \<Longrightarrow> c \<noteq> 3 \<Longrightarrow> A8 M0 ! c = c"
  using lt8_cases [of c] by (auto simp: A8_M0)

lemma corner_step:
  assumes G: "G \<in> moves" and ok: "ok8 1 3 i j (A8 G)" and ij: "i < j" "j < 8"
  shows "perm_list 8 (A8 (conjugate M0 G))" "A8 (conjugate M0 G) ! i = j"
    "\<forall>k<i. A8 (conjugate M0 G) ! k = k"
proof -
  have g: "perm_list 8 (A8 G)" using legal_wf [OF moves_legal [OF G]] by (simp add: wf_move_def)
  have s: "perm_list 8 (A8 M0)"
    using legal_wf [OF moves_legal [OF constants_moves(1)]] by (simp add: wf_move_def)
  have e: "A8 (conjugate M0 G) = mat_mul (mat_mul (A8 G) (A8 M0)) (mat_inv (A8 G))"
    by (simp add: conjugate_def)
  show "perm_list 8 (A8 (conjugate M0 G))" unfolding e by (rule conj_perm [OF g s])
  have i8: "i < 8" using ij by simp
  have "A8 M0 ! (A8 G ! i) = A8 G ! j" using ok by (auto simp: ok8_def A8_M0)
  then show "A8 (conjugate M0 G) ! i = j" unfolding e by (rule conj_send [OF g i8 ij(2)])
  show "\<forall>k<i. A8 (conjugate M0 G) ! k = k"
  proof (intro allI impI)
    fix k assume k: "k < i"
    then have k8: "k < 8" using i8 by simp
    have "A8 G ! k \<noteq> A8 G ! i" "A8 G ! k \<noteq> A8 G ! j"
      using perm_list_inj [OF g k8 i8] perm_list_inj [OF g k8 ij(2)] k ij by auto
    then have "A8 G ! k \<noteq> 1" "A8 G ! k \<noteq> 3" using ok by (auto simp: ok8_def)
    then have "A8 M0 ! (A8 G ! k) = A8 G ! k"
      using perm_list_nth_less [OF g k8] by (simp add: A8_M0_nth)
    then show "A8 (conjugate M0 G) ! k = k" unfolding e by (rule conj_fix [OF g k8])
  qed
qed

lemma corner_pos_loop_ok:
  assumes y0: "perm_list 8 y0"
  shows "i \<le> 8 \<Longrightarrow> perm_list 8 y \<Longrightarrow> \<forall>k<i. y ! k = k \<Longrightarrow> res \<in> moves \<Longrightarrow>
    y = mat_mul (A8 res) y0 \<Longrightarrow>
    \<exists>res'. corner_pos_loop M0 1 3 fund_l [i..<8] y res = Inr res' \<and> res' \<in> moves \<and>
      mat_mul (A8 res') y0 = eye 8"
proof (induction "8 - i" arbitrary: i y res)
  case 0
  then have "i = 8" by simp
  then show ?case using 0 prefix_eye [of 8 y] by auto
next
  case (Suc m)
  then have i8: "i < 8" by simp
  then have e: "[i..<8] = i # [Suc i..<8]" by (simp add: upt_conv_Cons)
  have m: "m = 8 - Suc i" "Suc i \<le> 8" using Suc.hyps(2) by simp_all
  show ?case
  proof (cases "y ! i = i")
    case True
    then have pre: "\<forall>k<Suc i. y ! k = k" using Suc.prems(3) by (simp add: less_Suc_eq)
    have "corner_pos_loop M0 1 3 fund_l [i..<8] y res
        = corner_pos_loop M0 1 3 fund_l [Suc i..<8] y res" using True by (simp add: e)
    then show ?thesis using Suc.hyps(1) [OF m Suc.prems(2) pre Suc.prems(4,5)] by simp
  next
    case False
    obtain j where j: "find_after y i = Inr j" "i < j" "j < 8" "y ! j = i"
      using find_after_perm [OF Suc.prems(2) i8 Suc.prems(3) False] by blast
    obtain G where G: "send_8 1 3 i j fund_l maxMove_8 1 prev0 = Inr (Some G)" "G \<in> moves"
      "ok8 1 3 i j (A8 G)" using query1 [OF j(2,3)] by blast
    let ?nm = "conjugate M0 G"
    note cs = corner_step [OF G(2,3) j(2,3)]
    have nm: "?nm \<in> moves" using constants_moves(1) G(2) by (rule conjugate_moves)
    have r: "mul ?nm res \<in> moves" using nm Suc.prems(4) by (rule moves.product)
    have pa: "perm_list 8 (mat_vec (A8 ?nm) y) \<and> (\<forall>k<Suc i. mat_vec (A8 ?nm) y ! k = k)"
      by (rule place_apply [OF cs(1) Suc.prems(2) j(2,3) cs(2,3) Suc.prems(3) j(4)])
    have "list_all (\<lambda>c. c < length (A8 res)) (A8 ?nm)"
      using cs(1) legal_wf [OF moves_legal [OF Suc.prems(4)]]
      by (simp add: perm_list_bound wf_move_def perm_list_length)
    then have ye: "mat_vec (A8 ?nm) y = mat_mul (A8 (mul ?nm res)) y0"
      by (simp add: mat_vec_eq_mul Suc.prems(5) mat_mul_assoc)
    have "corner_pos_loop M0 1 3 fund_l [i..<8] y res
        = corner_pos_loop M0 1 3 fund_l [Suc i..<8] (mat_vec (A8 ?nm) y) (mul ?nm res)"
      using False j(1) G(1) by (simp add: e conjugate_res_def)
    then show ?thesis
      using Suc.hyps(1) [OF m conjunct1 [OF pa] conjunct2 [OF pa] r ye] by simp
  qed
qed

lemma solve_corner_pos_ok:
  assumes "x \<in> moves"
  shows "\<exists>res. solve_corner_pos (A8 x) M0 1 3 fund_l = Inr res \<and> res \<in> moves \<and>
    A8 (mul res x) = eye 8"
proof -
  have p: "perm_list 8 (A8 x)" using legal_wf [OF moves_legal [OF assms]] by (simp add: wf_move_def)
  have "A8 x = mat_mul (A8 (move_seq [])) (A8 x)"
    using p by (simp add: mat_mul_eye_left perm_list_length)
  then have "\<exists>res'. corner_pos_loop M0 1 3 fund_l [0..<8] (A8 x) (move_seq []) = Inr res' \<and>
      res' \<in> moves \<and> mat_mul (A8 res') (A8 x) = eye 8"
    by (intro corner_pos_loop_ok [OF p _ p _ id_moves]) simp_all
  then show ?thesis by (simp add: solve_corner_pos_def)
qed

section \<open>Turning the cubies in place\<close>

lemma tw_mul_eye:
  assumes w: "0 < w" and o1: "length o1 = w * n" and s1: "bstruct w n (eye n) o1"
    and s2: "bstruct w n p2 o2" and k: "k < n"
  shows "tw w (mat_mul o1 o2) k = (tw w o1 k + tw w o2 k) mod w"
  using tw_mul [OF w perm_list_eye o1 s1 s2 k] k by (simp add: eye_def)

lemma twist_finish:
  assumes w: "0 < w" and n: "0 < n" and l: "length ori = w * n"
    and s: "bstruct w n (eye n) ori" and z: "tsum w n ori = 0"
    and rest: "\<forall>k. 1 \<le> k \<and> k < n \<longrightarrow> tw w ori k = 0"
  shows "ori = eye (w * n)"
proof -
  have e: "[0..<n] = 0 # [1..<n]" using n by (simp add: upt_conv_Cons)
  have s0: "sum_list (map (tw w ori) [1..<n]) = 0" using rest by (simp add: sum_list_eq_0_iff)
  have "sum_list (map (tw w ori) [0..<n]) = tw w ori 0 + sum_list (map (tw w ori) [1..<n])"
    by (simp only: e list.map sum_list.Cons)
  then have "tsum w n ori = tw w ori 0 mod w" by (simp only: tsum_def s0 add_0_right)
  then have "tw w ori 0 = 0" using z tw_less [OF w, of ori 0] by simp
  then have "\<And>i. i < n \<Longrightarrow> tw w ori i = 0" using rest by (metis One_nat_def Suc_leI neq0_conv)
  then show ?thesis by (rule bstruct_identity [OF w l s])
qed

lemma mod_nth_tw:
  assumes "0 < w" "w * i < length ori"
  shows "map (\<lambda>c. c mod w) ori ! (w * i) = tw w ori i"
  using assms by (simp add: tw_def)

subsection \<open>Corner orientations\<close>

lemma A8_M1: "A8 M1 = eye 8"
  by code_simp

lemma tw_M1: "map (tw 3 (S3 M1)) [0..<8] = [2, 0, 1, 0, 0, 0, 0, 0]"
  by code_simp

lemma tw_M1_nth:
  "tw 3 (S3 M1) 0 = 2" "tw 3 (S3 M1) 2 = 1"
  "c < 8 \<Longrightarrow> c \<noteq> 0 \<Longrightarrow> c \<noteq> 2 \<Longrightarrow> tw 3 (S3 M1) c = 0"
proof -
  have e: "tw 3 (S3 M1) c = [2, 0, 1, 0, 0, 0, 0, 0] ! c" if "c < 8" for c
    using nth_map [of c "[0..<8]" "tw 3 (S3 M1)"] that by (simp add: tw_M1 del: upt_Suc)
  show "tw 3 (S3 M1) 0 = 2" "tw 3 (S3 M1) 2 = 1" by (simp_all add: e)
  show "c < 8 \<Longrightarrow> c \<noteq> 0 \<Longrightarrow> c \<noteq> 2 \<Longrightarrow> tw 3 (S3 M1) c = 0"
    using lt8_cases [of c] by (auto simp: e)
qed

lemma legal3:
  assumes "x \<in> moves"
  shows "perm_list 8 (A8 x)" "perm_list (3 * 8) (S3 x)" "bstruct 3 8 (A8 x) (S3 x)"
    "length (S3 x) = 3 * 8" "tsum 3 8 (S3 x) = 0" "wf_move x"
  using moves_legal [OF assms] by (simp_all add: legal_def wf_move_def perm_list_def)

lemma tw3_apply:
  assumes nm: "nm \<in> moves" "A8 nm = eye 8" and cur: "cur \<in> moves" and k: "k < 8"
  shows "tw 3 (S3 (mul nm cur)) k = (tw 3 (S3 nm) k + tw 3 (S3 cur) k) mod 3"
  using tw_mul_eye [OF _ legal3(4) [OF nm(1)] _ legal3(3) [OF cur] k] legal3(3) [OF nm(1)]
  by (simp add: nm(2))

lemma tw3_conj:
  assumes G: "G \<in> moves" and k: "k < 8"
  shows "tw 3 (S3 (conjugate M1 G)) k = tw 3 (S3 M1) (A8 G ! k)"
proof -
  have sa: "bstruct 3 8 (eye 8) (S3 M1)"
    using legal3(3) [OF constants_moves(2)] by (simp add: A8_M1)
  have "tw 3 (mat_mul (mat_mul (S3 G) (S3 M1)) (mat_inv (S3 G))) k = tw 3 (S3 M1) (A8 G ! k)"
    by (rule tw_conj [OF _ legal3(1-3) [OF G] legal3(4) [OF constants_moves(2)] sa k]) simp
  then show ?thesis by (simp add: conjugate_def)
qed

lemma eye_mul_eye: "mat_mul (eye n) (eye n) = eye n"
  by (rule mat_mul_eye_left) (simp add: eye_def)

lemma corner_twist_step:
  assumes G: "G \<in> moves" and ok: "ok_slow 8 0 2 0 i (A8 G)" and i: "1 \<le> i"
  shows "conjugate M1 G \<in> moves" "A8 (conjugate M1 G) = eye 8"
    "tw 3 (S3 (conjugate M1 G)) i = 1"
    "\<forall>k. 1 \<le> k \<and> k < 8 \<and> k \<noteq> i \<longrightarrow> tw 3 (S3 (conjugate M1 G)) k = 0"
proof -
  have g: "perm_list 8 (A8 G)" by (rule legal3(1) [OF G])
  have i8: "i < 8" and g0: "A8 G ! 0 = 0" and gi: "A8 G ! i = 2"
    using ok by (simp_all add: ok_slow_def)
  show "conjugate M1 G \<in> moves" using constants_moves(2) G by (rule conjugate_moves)
  show "A8 (conjugate M1 G) = eye 8" using conj_eye [OF g] by (simp add: conjugate_def A8_M1)
  show "tw 3 (S3 (conjugate M1 G)) i = 1" by (simp add: tw3_conj [OF G i8] gi tw_M1_nth)
  show "\<forall>k. 1 \<le> k \<and> k < 8 \<and> k \<noteq> i \<longrightarrow> tw 3 (S3 (conjugate M1 G)) k = 0"
  proof (intro allI impI)
    fix k assume k: "1 \<le> k \<and> k < 8 \<and> k \<noteq> i"
    then have k8: "k < 8" by simp
    have "A8 G ! k \<noteq> A8 G ! 0" "A8 G ! k \<noteq> A8 G ! i"
      using perm_list_inj [OF g k8, of 0] perm_list_inj [OF g k8 i8] k by auto
    then have "A8 G ! k \<noteq> 0" "A8 G ! k \<noteq> 2" using g0 gi by simp_all
    then show "tw 3 (S3 (conjugate M1 G)) k = 0"
      using perm_list_nth_less [OF g k8] by (simp add: tw3_conj [OF G k8] tw_M1_nth)
  qed
qed

lemma power_move_2: "power_move x 2 = mul x x"
proof -
  have "power_move x (Suc (Suc 0)) = repeat_mul x (Suc (Suc 0))" by (rule power_move_repeat)
  then show ?thesis by (simp add: numeral_2_eq_2)
qed

text \<open>One iteration of the loop: the move applied turns slot \<open>i\<close> by \<open>t\<close>.\<close>

lemma corner_twist_apply:
  assumes nm: "nm \<in> moves" "A8 nm = eye 8" "tw 3 (S3 nm) i = t"
    "\<forall>k. 1 \<le> k \<and> k < 8 \<and> k \<noteq> i \<longrightarrow> tw 3 (S3 nm) k = 0"
    and res: "res \<in> moves" "A8 res = eye 8" and x: "x \<in> moves"
    and i: "1 \<le> i" "i < 8"
    and ti: "(t + tw 3 (S3 (mul res x)) i) mod 3 = 0"
    and pre: "\<forall>k. 1 \<le> k \<and> k < i \<longrightarrow> tw 3 (S3 (mul res x)) k = 0"
  shows "mul nm res \<in> moves" "A8 (mul nm res) = eye 8"
    "mat_vec (S3 nm) (map (\<lambda>c. c mod 3) (S3 (mul res x)))
       = map (\<lambda>c. c mod 3) (S3 (mul (mul nm res) x))"
    "\<forall>k. 1 \<le> k \<and> k < Suc i \<longrightarrow> tw 3 (S3 (mul (mul nm res) x)) k = 0"
proof -
  have cur: "mul res x \<in> moves" using res(1) x by (rule moves.product)
  have as: "mul (mul nm res) x = mul nm (mul res x)"
    using legal3(6) [OF nm(1)] legal3(6) [OF res(1)] by (rule mul_assoc)
  show "mul nm res \<in> moves" using nm(1) res(1) by (rule moves.product)
  show "A8 (mul nm res) = eye 8" by (simp add: nm(2) res(2) eye_mul_eye)
  have "list_all (\<lambda>c. c < length (S3 (mul res x))) (S3 nm)"
    by (rule perm_list_bound [OF legal3(2) [OF nm(1)] legal3(4) [OF cur]])
  then show "mat_vec (S3 nm) (map (\<lambda>c. c mod 3) (S3 (mul res x)))
       = map (\<lambda>c. c mod 3) (S3 (mul (mul nm res) x))"
    by (simp only: as mat_vec_mod mul_sel)
  show "\<forall>k. 1 \<le> k \<and> k < Suc i \<longrightarrow> tw 3 (S3 (mul (mul nm res) x)) k = 0"
  proof (intro allI impI)
    fix k assume k: "1 \<le> k \<and> k < Suc i"
    then have k8: "k < 8" using i by simp
    have e: "tw 3 (S3 (mul (mul nm res) x)) k = (tw 3 (S3 nm) k + tw 3 (S3 (mul res x)) k) mod 3"
      unfolding as by (rule tw3_apply [OF nm(1,2) cur k8])
    show "tw 3 (S3 (mul (mul nm res) x)) k = 0"
    proof (cases "k = i")
      case True
      then show ?thesis using e ti nm(3) by simp
    next
      case False
      then have "k < i" using k by simp
      then show ?thesis using e pre nm(4) k k8 False by simp
    qed
  qed
qed

lemma pivot_corner_loop_ok:
  assumes x: "x \<in> moves" "A8 x = eye 8"
  shows "1 \<le> i \<Longrightarrow> i \<le> 8 \<Longrightarrow> res \<in> moves \<Longrightarrow> A8 res = eye 8 \<Longrightarrow>
    \<forall>k. 1 \<le> k \<and> k < i \<longrightarrow> tw 3 (S3 (mul res x)) k = 0 \<Longrightarrow>
    \<exists>res'. pivot_corner_loop M1 2 fund_l [i..<8] (map (\<lambda>c. c mod 3) (S3 (mul res x))) res
        = Inr res' \<and>
      res' \<in> moves \<and> A8 res' = eye 8 \<and>
      (\<forall>k. 1 \<le> k \<and> k < 8 \<longrightarrow> tw 3 (S3 (mul res' x)) k = 0)"
proof (induction "8 - i" arbitrary: i res)
  case 0
  then have "i = 8" by simp
  then show ?case using 0 by auto
next
  case (Suc m)
  then have i8: "i < 8" by simp
  then have e: "[i..<8] = i # [Suc i..<8]" by (simp add: upt_conv_Cons)
  have m: "m = 8 - Suc i" "1 \<le> Suc i" "Suc i \<le> 8" using Suc.hyps(2) by simp_all
  let ?y = "map (\<lambda>c. c mod 3) (S3 (mul res x))"
  have cur: "mul res x \<in> moves" using Suc.prems(3) x(1) by (rule moves.product)
  have yi: "?y ! (3 * i) = tw 3 (S3 (mul res x)) i"
    using i8 legal3(4) [OF cur] by (intro mod_nth_tw) simp_all
  have t3: "tw 3 (S3 (mul res x)) i < 3" by (simp add: tw_less)
  obtain G where G: "send_8_slow 0 2 0 i fund_l maxMove_8 1 prev0 = Inr (Some G)" "G \<in> moves"
    "ok_slow 8 0 2 0 i (A8 G)" using query2 [OF Suc.prems(1) i8] by blast
  let ?nm = "conjugate M1 G"
  note cs = corner_twist_step [OF G(2,3) Suc.prems(1)]
  consider "tw 3 (S3 (mul res x)) i = 2" | "tw 3 (S3 (mul res x)) i = 1"
    | "tw 3 (S3 (mul res x)) i = 0" using t3 by linarith
  then show ?case
  proof cases
    case 1
    have ti: "(1 + tw 3 (S3 (mul res x)) i) mod 3 = 0" using 1 by simp
    note ap = corner_twist_apply [OF cs Suc.prems(3,4) x(1) Suc.prems(1) i8 ti Suc.prems(5)]
    have "pivot_corner_loop M1 2 fund_l [i..<8] ?y res
        = pivot_corner_loop M1 2 fund_l [Suc i..<8]
            (map (\<lambda>c. c mod 3) (S3 (mul (mul ?nm res) x))) (mul ?nm res)"
      using 1 yi G(1) ap(3) by (simp add: e conjugate_res_def)
    then show ?thesis using Suc.hyps(1) [OF m ap(1,2,4)] by simp
  next
    case 2
    let ?n2 = "power_move ?nm 2"
    have p2: "?n2 = mul ?nm ?nm" by (rule power_move_2)
    have n2: "?n2 \<in> moves" "A8 ?n2 = eye 8" "tw 3 (S3 ?n2) i = 2"
      "\<forall>k. 1 \<le> k \<and> k < 8 \<and> k \<noteq> i \<longrightarrow> tw 3 (S3 ?n2) k = 0"
      unfolding p2 using cs tw3_apply [OF cs(1,2) cs(1)] i8
      by (simp_all add: moves.product eye_mul_eye)
    have ti: "(2 + tw 3 (S3 (mul res x)) i) mod 3 = 0" using 2 by simp
    note ap = corner_twist_apply [OF n2 Suc.prems(3,4) x(1) Suc.prems(1) i8 ti Suc.prems(5)]
    have "pivot_corner_loop M1 2 fund_l [i..<8] ?y res
        = pivot_corner_loop M1 2 fund_l [Suc i..<8]
            (map (\<lambda>c. c mod 3) (S3 (mul (mul ?n2 res) x))) (mul ?n2 res)"
      using 2 yi G(1) ap(3) by (simp add: e conjugate_res_def Let_def)
    then show ?thesis using Suc.hyps(1) [OF m ap(1,2,4)] by simp
  next
    case 3
    then have pre: "\<forall>k. 1 \<le> k \<and> k < Suc i \<longrightarrow> tw 3 (S3 (mul res x)) k = 0"
      using Suc.prems(5) by (auto simp: less_Suc_eq)
    have "pivot_corner_loop M1 2 fund_l [i..<8] ?y res
        = pivot_corner_loop M1 2 fund_l [Suc i..<8] ?y res"
      using 3 yi by (simp add: e)
    then show ?thesis using Suc.hyps(1) [OF m Suc.prems(3,4) pre] by simp
  qed
qed

lemma pivot_corner_cubies_ok:
  assumes x: "x \<in> moves" "A8 x = eye 8"
  shows "\<exists>res. pivot_corner_cubies (map (\<lambda>c. c mod 3) (S3 x)) M1 2 fund_l = Inr res \<and>
    res \<in> moves \<and> A8 (mul res x) = eye 8 \<and> S3 (mul res x) = eye 24"
proof -
  have m: "mul (move_seq []) x = x" using legal3(6) [OF x(1)] by (rule mul_id_left)
  have "\<exists>res'. pivot_corner_loop M1 2 fund_l [1..<8]
        (map (\<lambda>c. c mod 3) (S3 (mul (move_seq []) x))) (move_seq []) = Inr res' \<and>
      res' \<in> moves \<and> A8 res' = eye 8 \<and>
      (\<forall>k. 1 \<le> k \<and> k < 8 \<longrightarrow> tw 3 (S3 (mul res' x)) k = 0)"
    by (rule pivot_corner_loop_ok [OF x _ _ id_moves]) simp_all
  then obtain res where res: "pivot_corner_loop M1 2 fund_l [1..<8]
        (map (\<lambda>c. c mod 3) (S3 x)) (move_seq []) = Inr res" "res \<in> moves" "A8 res = eye 8"
      "\<forall>k. 1 \<le> k \<and> k < 8 \<longrightarrow> tw 3 (S3 (mul res x)) k = 0"
    unfolding m by blast
  have cur: "mul res x \<in> moves" using res(2) x(1) by (rule moves.product)
  have a: "A8 (mul res x) = eye 8" by (simp add: res(3) x(2) eye_mul_eye)
  have "bstruct 3 8 (eye 8) (S3 (mul res x))" using legal3(3) [OF cur] by (simp only: a)
  then have "S3 (mul res x) = eye (3 * 8)"
    using legal3(4,5) [OF cur] res(4) by (intro twist_finish) simp_all
  then show ?thesis using res(1,2) a by (simp add: pivot_corner_cubies_def)
qed

subsection \<open>Edge positions\<close>

lemma switcher_A12:
  "map A12 [M20, M21, M22, M23] =
     [[3, 1, 2, 11, 4, 5, 6, 7, 8, 9, 10, 0], [0, 1, 2, 3, 4, 6, 7, 5, 8, 9, 10, 11],
      [0, 1, 2, 3, 6, 5, 7, 4, 8, 9, 10, 11], [0, 1, 9, 3, 4, 5, 6, 7, 8, 10, 2, 11]]"
  by code_simp

lemma switcher_corners:
  "list_all (\<lambda>m. A8 m = eye 8 \<and> S3 m = eye 24) [M20, M21, M22, M23]"
  by code_simp

lemma lt4_cases: "k < 4 \<Longrightarrow> k = 0 \<or> k = 1 \<or> k = 2 \<or> k = (3::nat)"
  by arith

lemma switcher_facts:
  assumes "k < 4"
  shows "A12 ([M20, M21, M22, M23] ! k) ! (zones ! k ! 0) = zones ! k ! 1"
    "c < 12 \<Longrightarrow> c \<noteq> zones ! k ! 0 \<Longrightarrow> c \<noteq> zones ! k ! 1 \<Longrightarrow> c \<noteq> zones ! k ! 2 \<Longrightarrow>
       A12 ([M20, M21, M22, M23] ! k) ! c = c"
    "A8 ([M20, M21, M22, M23] ! k) = eye 8" "S3 ([M20, M21, M22, M23] ! k) = eye 24"
proof -
  have a: "A12 M20 = [3, 1, 2, 11, 4, 5, 6, 7, 8, 9, 10, 0]"
    "A12 M21 = [0, 1, 2, 3, 4, 6, 7, 5, 8, 9, 10, 11]"
    "A12 M22 = [0, 1, 2, 3, 6, 5, 7, 4, 8, 9, 10, 11]"
    "A12 M23 = [0, 1, 9, 3, 4, 5, 6, 7, 8, 10, 2, 11]"
    using switcher_A12 by simp_all
  note k = lt4_cases [OF assms]
  show "A12 ([M20, M21, M22, M23] ! k) ! (zones ! k ! 0) = zones ! k ! 1"
    using k by (auto simp: a zones_def)
  show "A8 ([M20, M21, M22, M23] ! k) = eye 8" "S3 ([M20, M21, M22, M23] ! k) = eye 24"
    using k switcher_corners by auto
  assume c: "c < 12" "c \<noteq> zones ! k ! 0" "c \<noteq> zones ! k ! 1" "c \<noteq> zones ! k ! 2"
  show "A12 ([M20, M21, M22, M23] ! k) ! c = c"
    using k lt12_cases [OF c(1)] c(2-4) by (auto simp: a zones_def)
qed

lemma switcher_moves: "k < 4 \<Longrightarrow> [M20, M21, M22, M23] ! k \<in> moves"
proof -
  assume "k < 4"
  then have "k = 0 \<or> k = 1 \<or> k = 2 \<or> k = 3" by arith
  then show ?thesis using constants_moves by auto
qed

lemma legal2:
  assumes "x \<in> moves"
  shows "perm_list 12 (A12 x)" "perm_list (2 * 12) (S2 x)" "bstruct 2 12 (A12 x) (S2 x)"
    "length (S2 x) = 2 * 12" "tsum 2 12 (S2 x) = 0" "sign (A8 x) = sign (A12 x)"
  using moves_legal [OF assms] by (simp_all add: legal_def wf_move_def perm_list_def)

lemma edge_step:
  assumes k: "k < 4" and G: "G \<in> moves"
    and ok: "ok12 (zones ! k ! 0) (zones ! k ! 1) (zones ! k ! 2) i j (A12 G)"
    and ij: "i < j" "j < 12"
  shows "conjugate ([M20, M21, M22, M23] ! k) G \<in> moves"
    "A8 (conjugate ([M20, M21, M22, M23] ! k) G) = eye 8"
    "S3 (conjugate ([M20, M21, M22, M23] ! k) G) = eye 24"
    "perm_list 12 (A12 (conjugate ([M20, M21, M22, M23] ! k) G))"
    "A12 (conjugate ([M20, M21, M22, M23] ! k) G) ! i = j"
    "\<forall>q<i. A12 (conjugate ([M20, M21, M22, M23] ! k) G) ! q = q"
proof -
  let ?s = "[M20, M21, M22, M23] ! k"
  have g: "perm_list 12 (A12 G)" by (rule legal2(1) [OF G])
  have s: "perm_list 12 (A12 ?s)" by (rule legal2(1) [OF switcher_moves [OF k]])
  have e: "A12 (conjugate ?s G) = mat_mul (mat_mul (A12 G) (A12 ?s)) (mat_inv (A12 G))"
    by (simp add: conjugate_def)
  have i12: "i < 12" using ij by simp
  have gi: "A12 G ! i = zones ! k ! 0" and gj: "A12 G ! j = zones ! k ! 1"
    and z: "zones ! k ! 2 \<in> set (drop (i + 1) (A12 G))" using ok by (simp_all add: ok12_def)
  obtain q0 where q0: "i < q0" "q0 < 12" "A12 G ! q0 = zones ! k ! 2"
  proof -
    obtain a where a: "a < length (drop (i + 1) (A12 G))"
      "drop (i + 1) (A12 G) ! a = zones ! k ! 2" using z by (auto simp: in_set_conv_nth)
    have "i + 1 + a < 12" "A12 G ! (i + 1 + a) = zones ! k ! 2"
      using a perm_list_length [OF g] by auto
    then show ?thesis using that [of "i + 1 + a"] by simp
  qed
  show "conjugate ?s G \<in> moves" using switcher_moves [OF k] G by (rule conjugate_moves)
  show "A8 (conjugate ?s G) = eye 8"
    using conj_eye [OF legal3(1) [OF G]] by (simp add: conjugate_def switcher_facts(3) [OF k])
  show "S3 (conjugate ?s G) = eye 24"
    using conj_eye [OF legal3(2) [OF G]] by (simp add: conjugate_def switcher_facts(4) [OF k])
  show "perm_list 12 (A12 (conjugate ?s G))" unfolding e by (rule conj_perm [OF g s])
  have "A12 ?s ! (A12 G ! i) = A12 G ! j" by (simp add: gi gj switcher_facts(1) [OF k])
  then show "A12 (conjugate ?s G) ! i = j" unfolding e by (rule conj_send [OF g i12 ij(2)])
  show "\<forall>q<i. A12 (conjugate ?s G) ! q = q"
  proof (intro allI impI)
    fix q assume q: "q < i"
    then have q12: "q < 12" using i12 by simp
    have "A12 G ! q \<noteq> A12 G ! i" "A12 G ! q \<noteq> A12 G ! j" "A12 G ! q \<noteq> A12 G ! q0"
      using perm_list_inj [OF g q12 i12] perm_list_inj [OF g q12 ij(2)]
        perm_list_inj [OF g q12 q0(2)] q ij q0(1) by auto
    then have "A12 ?s ! (A12 G ! q) = A12 G ! q"
      using perm_list_nth_less [OF g q12] gi gj q0(3) by (intro switcher_facts(2) [OF k]) simp_all
    then show "A12 (conjugate ?s G) ! q = q" unfolding e by (rule conj_fix [OF g q12])
  qed
qed

lemma length_zones: "length zones = 4"
  by (simp add: zones_def)

lemma edge_pos_loop_ok:
  assumes y0: "perm_list 12 y0"
  shows "i \<le> 10 \<Longrightarrow> perm_list 12 y \<Longrightarrow> \<forall>k<i. y ! k = k \<Longrightarrow> res \<in> moves \<Longrightarrow>
    A8 res = eye 8 \<Longrightarrow> S3 res = eye 24 \<Longrightarrow> y = mat_mul (A12 res) y0 \<Longrightarrow>
    \<exists>res'. edge_pos_loop [M20, M21, M22, M23] zones fund_l [i..<10] y res nm = Inr res' \<and>
      res' \<in> moves \<and> A8 res' = eye 8 \<and> S3 res' = eye 24 \<and>
      perm_list 12 (mat_mul (A12 res') y0) \<and> (\<forall>k<10. mat_mul (A12 res') y0 ! k = k)"
proof (induction "10 - i" arbitrary: i y res nm)
  case 0
  then have "i = 10" by simp
  then show ?case using 0 by auto
next
  case (Suc m)
  then have i10: "i < 10" by simp
  then have i12: "i < 12" by simp
  have e: "[i..<10] = i # [Suc i..<10]" using i10 by (simp add: upt_conv_Cons)
  have m: "m = 10 - Suc i" "Suc i \<le> 10" using Suc.hyps(2) by simp_all
  show ?case
  proof (cases "y ! i = i")
    case True
    then have pre: "\<forall>k<Suc i. y ! k = k" using Suc.prems(3) by (simp add: less_Suc_eq)
    have "edge_pos_loop [M20, M21, M22, M23] zones fund_l [i..<10] y res nm
        = edge_pos_loop [M20, M21, M22, M23] zones fund_l [Suc i..<10] y res nm"
      using True by (simp add: e)
    then show ?thesis using Suc.hyps(1) [OF m Suc.prems(2) pre Suc.prems(4-7)] by simp
  next
    case False
    obtain j where j: "find_after y i = Inr j" "i < j" "j < 12" "y ! j = i"
      using find_after_perm [OF Suc.prems(2) i12 Suc.prems(3) False] by blast
    obtain k G where k: "k < 4" and G: "G \<in> moves"
      "ok12 (zones ! k ! 0) (zones ! k ! 1) (zones ! k ! 2) i j (A12 G)"
      and t: "try_switchers [M20, M21, M22, M23] zones fund_l i j [0..<4] nm
         = Inr (Some (conjugate ([M20, M21, M22, M23] ! k) G))"
      using query3 [OF i10 j(2,3)] by blast
    let ?nm = "conjugate ([M20, M21, M22, M23] ! k) G"
    note cs = edge_step [OF k G j(2,3)]
    have r: "mul ?nm res \<in> moves" using cs(1) Suc.prems(4) by (rule moves.product)
    have r8: "A8 (mul ?nm res) = eye 8" by (simp add: cs(2) Suc.prems(5) eye_mul_eye)
    have r3: "S3 (mul ?nm res) = eye 24" by (simp add: cs(3) Suc.prems(6) eye_mul_eye)
    have pa: "perm_list 12 (mat_vec (A12 ?nm) y) \<and> (\<forall>k<Suc i. mat_vec (A12 ?nm) y ! k = k)"
      by (rule place_apply [OF cs(4) Suc.prems(2) j(2,3) cs(5,6) Suc.prems(3) j(4)])
    have "list_all (\<lambda>c. c < length (A12 res)) (A12 ?nm)"
      by (rule perm_list_bound [OF cs(4) perm_list_length [OF legal2(1) [OF Suc.prems(4)]]])
    then have ye: "mat_vec (A12 ?nm) y = mat_mul (A12 (mul ?nm res)) y0"
      by (simp add: mat_vec_eq_mul Suc.prems(7) mat_mul_assoc)
    have "edge_pos_loop [M20, M21, M22, M23] zones fund_l [i..<10] y res nm
        = edge_pos_loop [M20, M21, M22, M23] zones fund_l [Suc i..<10]
            (mat_vec (A12 ?nm) y) (mul ?nm res) (Some ?nm)"
      using False j(1) t by (simp add: e length_zones)
    then show ?thesis
      using Suc.hyps(1) [OF m conjunct1 [OF pa] conjunct2 [OF pa] r r8 r3 ye] by simp
  qed
qed

lemma sign_swap_last: "sign [0, 1, 2, 3, 4, 5, 6, 7, 8, 9, 11, 10] = - 1"
  by code_simp

lemma last_two:
  assumes p: "perm_list 12 p" and pre: "\<forall>k<10. p ! k = k" and s: "sign p = 1"
  shows "p = eye 12"
proof -
  have len: "length p = 12" using p by (rule perm_list_length)
  have ge: "10 \<le> p ! q" if "q < 12" "10 \<le> q" for q
  proof (rule ccontr)
    assume "\<not> 10 \<le> p ! q"
    then have a: "p ! q < 10" by simp
    then have "p ! (p ! q) = p ! q" using pre by simp
    then have "p ! q = q" using perm_list_inj [OF p _ that(1)] a by simp
    then show False using a that by simp
  qed
  have ne: "p ! 10 \<noteq> p ! 11"
  proof
    assume "p ! 10 = p ! 11"
    then have "(10::nat) = 11" using perm_list_inj [OF p, of 10 11] by simp
    then show False by simp
  qed
  have "p ! 10 < 12" "p ! 11 < 12" "10 \<le> p ! 10" "10 \<le> p ! 11"
    using perm_list_nth_less [OF p, of 10] perm_list_nth_less [OF p, of 11] ge [of 10] ge [of 11]
    by simp_all
  with ne have "p ! 10 < 12" "p ! 11 < 12" "10 \<le> p ! 10" "10 \<le> p ! 11" "p ! 10 \<noteq> p ! 11"
    by simp_all
  then consider "p ! 10 = 10" "p ! 11 = 11" | "p ! 10 = 11" "p ! 11 = 10" by linarith
  then show ?thesis
  proof cases
    case 1
    have "\<forall>k<12. p ! k = k"
    proof (intro allI impI)
      fix k :: nat assume "k < 12"
      then consider "k < 10" | "k = 10" | "k = 11" by linarith
      then show "p ! k = k" using pre 1 by cases simp_all
    qed
    then show ?thesis by (rule prefix_eye [OF p])
  next
    case 2
    have "p = [0, 1, 2, 3, 4, 5, 6, 7, 8, 9, 11, 10]"
    proof (rule nth_equalityI)
      show "length p = length [0, 1, 2, 3, 4, 5, 6, 7, 8, 9, 11, 10::nat]" using len by simp
      fix k assume "k < length p"
      then have k: "k < 12" using len by simp
      then consider "k < 10" | "k = 10" | "k = 11" by linarith
      then show "p ! k = [0, 1, 2, 3, 4, 5, 6, 7, 8, 9, 11, 10] ! k"
      proof cases
        case 1
        then have "p ! k = k" using pre by simp
        then show ?thesis using lt12_cases [OF k] 1 by auto
      qed (simp_all add: 2)
    qed
    then show ?thesis using s sign_swap_last by simp
  qed
qed

lemma solve_edge_pos_ok:
  assumes x: "x \<in> moves" "A8 x = eye 8" "S3 x = eye 24"
  shows "\<exists>res. solve_edge_pos (A12 x) [M20, M21, M22, M23]
        [[0, 3, 11], [5, 6, 7], [4, 6, 7], [2, 9, 10]] fund_l = Inr res \<and>
    res \<in> moves \<and> A8 (mul res x) = eye 8 \<and> S3 (mul res x) = eye 24 \<and>
    A12 (mul res x) = eye 12"
proof -
  have p: "perm_list 12 (A12 x)" by (rule legal2(1) [OF x(1)])
  have "A12 x = mat_mul (A12 (move_seq [])) (A12 x)"
    using p by (simp add: mat_mul_eye_left perm_list_length)
  then have "\<exists>res'. edge_pos_loop [M20, M21, M22, M23] zones fund_l [0..<10] (A12 x)
        (move_seq []) None = Inr res' \<and>
      res' \<in> moves \<and> A8 res' = eye 8 \<and> S3 res' = eye 24 \<and>
      perm_list 12 (mat_mul (A12 res') (A12 x)) \<and> (\<forall>k<10. mat_mul (A12 res') (A12 x) ! k = k)"
    by (intro edge_pos_loop_ok [OF p _ p _ id_moves]) simp_all
  then obtain res where res: "edge_pos_loop [M20, M21, M22, M23] zones fund_l [0..<10] (A12 x)
        (move_seq []) None = Inr res" "res \<in> moves" "A8 res = eye 8" "S3 res = eye 24"
      "perm_list 12 (mat_mul (A12 res) (A12 x))" "\<forall>k<10. mat_mul (A12 res) (A12 x) ! k = k"
    by blast
  have cur: "mul res x \<in> moves" using res(2) x(1) by (rule moves.product)
  have a: "A8 (mul res x) = eye 8" by (simp add: res(3) x(2) eye_mul_eye)
  have c: "S3 (mul res x) = eye 24" by (simp add: res(4) x(3) eye_mul_eye)
  have "sign (A12 (mul res x)) = 1" using legal2(6) [OF cur] by (simp only: a sign_eye)
  then have "A12 (mul res x) = eye 12" using res(5,6) by (intro last_two) simp_all
  then show ?thesis using res(1,2) a c by (simp add: solve_edge_pos_def zones_def)
qed

subsection \<open>Edge orientations\<close>

lemma M31_table:
  "A8 M31 = eye 8 \<and> A12 M31 = eye 12 \<and> S3 M31 = eye 24 \<and>
   map (tw 2 (S2 M31)) [0..<12] = [1, 0, 0, 1, 0, 0, 0, 0, 0, 0, 0, 0]"
  by code_simp

lemma tw_M31_nth:
  "tw 2 (S2 M31) 3 = 1"
  "c < 12 \<Longrightarrow> c \<noteq> 0 \<Longrightarrow> c \<noteq> 3 \<Longrightarrow> tw 2 (S2 M31) c = 0"
proof -
  have e: "tw 2 (S2 M31) c = [1, 0, 0, 1, 0, 0, 0, 0, 0, 0, 0, 0] ! c" if "c < 12" for c
    using nth_map [of c "[0..<12]" "tw 2 (S2 M31)"] that M31_table by (simp del: upt_Suc)
  show "tw 2 (S2 M31) 3 = 1" by (simp add: e)
  show "c < 12 \<Longrightarrow> c \<noteq> 0 \<Longrightarrow> c \<noteq> 3 \<Longrightarrow> tw 2 (S2 M31) c = 0"
    using lt12_cases [of c] by (auto simp: e)
qed

lemma tw2_apply:
  assumes nm: "nm \<in> moves" "A12 nm = eye 12" and cur: "cur \<in> moves" and k: "k < 12"
  shows "tw 2 (S2 (mul nm cur)) k = (tw 2 (S2 nm) k + tw 2 (S2 cur) k) mod 2"
  using tw_mul_eye [OF _ legal2(4) [OF nm(1)] _ legal2(3) [OF cur] k] legal2(3) [OF nm(1)]
  by (simp add: nm(2))

lemma tw2_conj:
  assumes G: "G \<in> moves" and k: "k < 12"
  shows "tw 2 (S2 (conjugate M31 G)) k = tw 2 (S2 M31) (A12 G ! k)"
proof -
  have sa: "bstruct 2 12 (eye 12) (S2 M31)"
    using legal2(3) [OF constants_moves(7)] M31_table by simp
  have "tw 2 (mat_mul (mat_mul (S2 G) (S2 M31)) (mat_inv (S2 G))) k = tw 2 (S2 M31) (A12 G ! k)"
    by (rule tw_conj [OF _ legal2(1-3) [OF G] legal2(4) [OF constants_moves(7)] sa k]) simp
  then show ?thesis by (simp add: conjugate_def)
qed

lemma edge_twist_step:
  assumes G: "G \<in> moves" and ok: "ok_slow 12 0 3 0 i (A12 G)" and i: "1 \<le> i"
  shows "conjugate M31 G \<in> moves" "A8 (conjugate M31 G) = eye 8"
    "A12 (conjugate M31 G) = eye 12" "S3 (conjugate M31 G) = eye 24"
    "tw 2 (S2 (conjugate M31 G)) i = 1"
    "\<forall>k. 1 \<le> k \<and> k < 12 \<and> k \<noteq> i \<longrightarrow> tw 2 (S2 (conjugate M31 G)) k = 0"
proof -
  have g: "perm_list 12 (A12 G)" by (rule legal2(1) [OF G])
  have i12: "i < 12" and g0: "A12 G ! 0 = 0" and gi: "A12 G ! i = 3"
    using ok by (simp_all add: ok_slow_def)
  show "conjugate M31 G \<in> moves" using constants_moves(7) G by (rule conjugate_moves)
  show "A8 (conjugate M31 G) = eye 8"
    using conj_eye [OF legal3(1) [OF G]] M31_table by (simp add: conjugate_def)
  show "A12 (conjugate M31 G) = eye 12"
    using conj_eye [OF g] M31_table by (simp add: conjugate_def)
  show "S3 (conjugate M31 G) = eye 24"
    using conj_eye [OF legal3(2) [OF G]] M31_table by (simp add: conjugate_def)
  show "tw 2 (S2 (conjugate M31 G)) i = 1" by (simp add: tw2_conj [OF G i12] gi tw_M31_nth)
  show "\<forall>k. 1 \<le> k \<and> k < 12 \<and> k \<noteq> i \<longrightarrow> tw 2 (S2 (conjugate M31 G)) k = 0"
  proof (intro allI impI)
    fix k assume k: "1 \<le> k \<and> k < 12 \<and> k \<noteq> i"
    then have k12: "k < 12" by simp
    have "A12 G ! k \<noteq> A12 G ! 0" "A12 G ! k \<noteq> A12 G ! i"
      using perm_list_inj [OF g k12, of 0] perm_list_inj [OF g k12 i12] k by auto
    then have "A12 G ! k \<noteq> 0" "A12 G ! k \<noteq> 3" using g0 gi by simp_all
    then show "tw 2 (S2 (conjugate M31 G)) k = 0"
      using perm_list_nth_less [OF g k12] by (simp add: tw2_conj [OF G k12] tw_M31_nth)
  qed
qed

lemma edge_twist_apply:
  assumes nm: "nm \<in> moves" "A12 nm = eye 12" "tw 2 (S2 nm) i = 1"
    "\<forall>k. 1 \<le> k \<and> k < 12 \<and> k \<noteq> i \<longrightarrow> tw 2 (S2 nm) k = 0"
    and res: "res \<in> moves" and x: "x \<in> moves"
    and i: "1 \<le> i" "i < 12"
    and ti: "tw 2 (S2 (mul res x)) i = 1"
    and pre: "\<forall>k. 1 \<le> k \<and> k < i \<longrightarrow> tw 2 (S2 (mul res x)) k = 0"
  shows "mul nm res \<in> moves"
    "mat_vec (S2 nm) (map (\<lambda>c. c mod 2) (S2 (mul res x)))
       = map (\<lambda>c. c mod 2) (S2 (mul (mul nm res) x))"
    "\<forall>k. 1 \<le> k \<and> k < Suc i \<longrightarrow> tw 2 (S2 (mul (mul nm res) x)) k = 0"
proof -
  have cur: "mul res x \<in> moves" using res x by (rule moves.product)
  have as: "mul (mul nm res) x = mul nm (mul res x)"
    using legal3(6) [OF nm(1)] legal3(6) [OF res] by (rule mul_assoc)
  show "mul nm res \<in> moves" using nm(1) res by (rule moves.product)
  have "list_all (\<lambda>c. c < length (S2 (mul res x))) (S2 nm)"
    by (rule perm_list_bound [OF legal2(2) [OF nm(1)] legal2(4) [OF cur]])
  then show "mat_vec (S2 nm) (map (\<lambda>c. c mod 2) (S2 (mul res x)))
       = map (\<lambda>c. c mod 2) (S2 (mul (mul nm res) x))"
    by (simp only: as mat_vec_mod mul_sel)
  show "\<forall>k. 1 \<le> k \<and> k < Suc i \<longrightarrow> tw 2 (S2 (mul (mul nm res) x)) k = 0"
  proof (intro allI impI)
    fix k assume k: "1 \<le> k \<and> k < Suc i"
    then have k12: "k < 12" using i by simp
    have e: "tw 2 (S2 (mul (mul nm res) x)) k = (tw 2 (S2 nm) k + tw 2 (S2 (mul res x)) k) mod 2"
      unfolding as by (rule tw2_apply [OF nm(1,2) cur k12])
    show "tw 2 (S2 (mul (mul nm res) x)) k = 0"
    proof (cases "k = i")
      case True
      then show ?thesis using e ti nm(3) by simp
    next
      case False
      then have "k < i" using k by simp
      then show ?thesis using e pre nm(4) k k12 False by simp
    qed
  qed
qed

lemma pivot_edge_loop_ok:
  assumes x: "x \<in> moves"
  shows "1 \<le> i \<Longrightarrow> i \<le> 12 \<Longrightarrow> res \<in> moves \<Longrightarrow>
    A8 res = eye 8 \<Longrightarrow> A12 res = eye 12 \<Longrightarrow> S3 res = eye 24 \<Longrightarrow>
    \<forall>k. 1 \<le> k \<and> k < i \<longrightarrow> tw 2 (S2 (mul res x)) k = 0 \<Longrightarrow>
    \<exists>res'. pivot_edge_loop M31 3 fund_l [i..<12] (map (\<lambda>c. c mod 2) (S2 (mul res x))) res
        = Inr res' \<and>
      res' \<in> moves \<and> A8 res' = eye 8 \<and> A12 res' = eye 12 \<and> S3 res' = eye 24 \<and>
      (\<forall>k. 1 \<le> k \<and> k < 12 \<longrightarrow> tw 2 (S2 (mul res' x)) k = 0)"
proof (induction "12 - i" arbitrary: i res)
  case 0
  then have "i = 12" by simp
  then show ?case using 0 by auto
next
  case (Suc m)
  then have i12: "i < 12" by simp
  then have e: "[i..<12] = i # [Suc i..<12]" by (simp add: upt_conv_Cons)
  have m: "m = 12 - Suc i" "1 \<le> Suc i" "Suc i \<le> 12" using Suc.hyps(2) by simp_all
  let ?y = "map (\<lambda>c. c mod 2) (S2 (mul res x))"
  have cur: "mul res x \<in> moves" using Suc.prems(3) x by (rule moves.product)
  have yi: "?y ! (2 * i) = tw 2 (S2 (mul res x)) i"
    using i12 legal2(4) [OF cur] by (intro mod_nth_tw) simp_all
  have t2: "tw 2 (S2 (mul res x)) i < 2" by (simp add: tw_less)
  show ?case
  proof (cases "tw 2 (S2 (mul res x)) i = 0")
    case True
    then have pre: "\<forall>k. 1 \<le> k \<and> k < Suc i \<longrightarrow> tw 2 (S2 (mul res x)) k = 0"
      using Suc.prems(7) by (auto simp: less_Suc_eq)
    have "pivot_edge_loop M31 3 fund_l [i..<12] ?y res
        = pivot_edge_loop M31 3 fund_l [Suc i..<12] ?y res"
      using True yi by (simp add: e)
    then show ?thesis using Suc.hyps(1) [OF m Suc.prems(3-6) pre] by simp
  next
    case False
    then have ti: "tw 2 (S2 (mul res x)) i = 1" using t2 by simp
    obtain G where G: "send_12_slow 0 3 0 i fund_l maxMove_12 1 prev0 = Inr (Some G)"
      "G \<in> moves" "ok_slow 12 0 3 0 i (A12 G)" using query4 [OF Suc.prems(1) i12] by blast
    let ?nm = "conjugate M31 G"
    note cs = edge_twist_step [OF G(2,3) Suc.prems(1)]
    note ap = edge_twist_apply [OF cs(1,3,5,6) Suc.prems(3) x Suc.prems(1) i12 ti Suc.prems(7)]
    have r8: "A8 (mul ?nm res) = eye 8" by (simp add: cs(2) Suc.prems(4) eye_mul_eye)
    have r12: "A12 (mul ?nm res) = eye 12" by (simp add: cs(3) Suc.prems(5) eye_mul_eye)
    have r3: "S3 (mul ?nm res) = eye 24" by (simp add: cs(4) Suc.prems(6) eye_mul_eye)
    have "pivot_edge_loop M31 3 fund_l [i..<12] ?y res
        = pivot_edge_loop M31 3 fund_l [Suc i..<12]
            (map (\<lambda>c. c mod 2) (S2 (mul (mul ?nm res) x))) (mul ?nm res)"
      using False yi G(1) ap(2) by (simp add: e conjugate_res_def)
    then show ?thesis using Suc.hyps(1) [OF m ap(1) r8 r12 r3 ap(3)] by simp
  qed
qed

lemma pivot_edge_cubies_ok:
  assumes x: "x \<in> moves" "A8 x = eye 8" "A12 x = eye 12" "S3 x = eye 24"
  shows "\<exists>res. pivot_edge_cubies (map (\<lambda>c. c mod 2) (S2 x)) M31 3 fund_l = Inr res \<and>
    res \<in> moves \<and> A8 (mul res x) = eye 8 \<and> A12 (mul res x) = eye 12 \<and>
    S3 (mul res x) = eye 24 \<and> S2 (mul res x) = eye 24"
proof -
  have m: "mul (move_seq []) x = x" using legal3(6) [OF x(1)] by (rule mul_id_left)
  have "\<exists>res'. pivot_edge_loop M31 3 fund_l [1..<12]
        (map (\<lambda>c. c mod 2) (S2 (mul (move_seq []) x))) (move_seq []) = Inr res' \<and>
      res' \<in> moves \<and> A8 res' = eye 8 \<and> A12 res' = eye 12 \<and> S3 res' = eye 24 \<and>
      (\<forall>k. 1 \<le> k \<and> k < 12 \<longrightarrow> tw 2 (S2 (mul res' x)) k = 0)"
    by (rule pivot_edge_loop_ok [OF x(1) _ _ id_moves]) simp_all
  then obtain res where res: "pivot_edge_loop M31 3 fund_l [1..<12]
        (map (\<lambda>c. c mod 2) (S2 x)) (move_seq []) = Inr res" "res \<in> moves" "A8 res = eye 8"
      "A12 res = eye 12" "S3 res = eye 24"
      "\<forall>k. 1 \<le> k \<and> k < 12 \<longrightarrow> tw 2 (S2 (mul res x)) k = 0"
    unfolding m by blast
  have cur: "mul res x \<in> moves" using res(2) x(1) by (rule moves.product)
  have a8: "A8 (mul res x) = eye 8" by (simp add: res(3) x(2) eye_mul_eye)
  have a12: "A12 (mul res x) = eye 12" by (simp add: res(4) x(3) eye_mul_eye)
  have s3: "S3 (mul res x) = eye 24" by (simp add: res(5) x(4) eye_mul_eye)
  have "bstruct 2 12 (eye 12) (S2 (mul res x))" using legal2(3) [OF cur] by (simp only: a12)
  then have "S2 (mul res x) = eye (2 * 12)"
    using legal2(4,5) [OF cur] res(6) by (intro twist_finish) simp_all
  then show ?thesis using res(1,2) a8 a12 s3 by (simp add: pivot_edge_cubies_def)
qed

section \<open>The solver solves every scramble\<close>

lemma solve_state_of:
  assumes M: "M \<in> moves"
  shows "\<exists>res. res \<in> moves \<and> solve (state_of M) = Inr (decompo res) \<and>
    A8 (mul res M) = eye 8 \<and> A12 (mul res M) = eye 12 \<and>
    S3 (mul res M) = eye 24 \<and> S2 (mul res M) = eye 24"
proof -
  have wM: "wf_move M" by (rule legal3(6) [OF M])
  obtain res1 where r1: "solve_corner_pos (A8 M) M0 1 3 fund_l = Inr res1" "res1 \<in> moves"
    "A8 (mul res1 M) = eye 8" using solve_corner_pos_ok [OF M] by blast
  have w1: "wf_move res1" by (rule legal3(6) [OF r1(2)])
  have c1: "mul res1 M \<in> moves" using r1(2) M by (rule moves.product)
  have wc1: "wf_move (mul res1 M)" by (rule legal3(6) [OF c1])
  obtain res2 where r2: "pivot_corner_cubies (map (\<lambda>c. c mod 3) (S3 (mul res1 M))) M1 2 fund_l
      = Inr res2" "res2 \<in> moves"
    "A8 (mul res2 (mul res1 M)) = eye 8" "S3 (mul res2 (mul res1 M)) = eye 24"
    using pivot_corner_cubies_ok [OF c1 r1(3)] by blast
  have w2: "wf_move res2" by (rule legal3(6) [OF r2(2)])
  have c2: "mul res2 (mul res1 M) \<in> moves" using r2(2) c1 by (rule moves.product)
  have wc2: "wf_move (mul res2 (mul res1 M))" by (rule legal3(6) [OF c2])
  obtain res3 where r3: "solve_edge_pos (A12 (mul res2 (mul res1 M))) [M20, M21, M22, M23]
        [[0, 3, 11], [5, 6, 7], [4, 6, 7], [2, 9, 10]] fund_l = Inr res3" "res3 \<in> moves"
    "A8 (mul res3 (mul res2 (mul res1 M))) = eye 8"
    "S3 (mul res3 (mul res2 (mul res1 M))) = eye 24"
    "A12 (mul res3 (mul res2 (mul res1 M))) = eye 12"
    using solve_edge_pos_ok [OF c2 r2(3,4)] by blast
  have w3: "wf_move res3" by (rule legal3(6) [OF r3(2)])
  have c3: "mul res3 (mul res2 (mul res1 M)) \<in> moves" using r3(2) c2 by (rule moves.product)
  have wc3: "wf_move (mul res3 (mul res2 (mul res1 M)))" by (rule legal3(6) [OF c3])
  obtain res4 where r4: "pivot_edge_cubies (map (\<lambda>c. c mod 2)
        (S2 (mul res3 (mul res2 (mul res1 M))))) M31 3 fund_l = Inr res4" "res4 \<in> moves"
    "A8 (mul res4 (mul res3 (mul res2 (mul res1 M)))) = eye 8"
    "A12 (mul res4 (mul res3 (mul res2 (mul res1 M)))) = eye 12"
    "S3 (mul res4 (mul res3 (mul res2 (mul res1 M)))) = eye 24"
    "S2 (mul res4 (mul res3 (mul res2 (mul res1 M)))) = eye 24"
    using pivot_edge_cubies_ok [OF c3 r3(3,5,4)] by blast
  have w4: "wf_move res4" by (rule legal3(6) [OF r4(2)])
  let ?R = "mul (mul (mul res4 res3) res2) res1"
  have R: "?R \<in> moves" using r1(2) r2(2) r3(2) r4(2) by (intro moves.product)
  have w43: "wf_move (mul res4 res3)" using w4 w3 by (rule wf_move_mul)
  have w432: "wf_move (mul (mul res4 res3) res2)" using w43 w2 by (rule wf_move_mul)
  have "mul ?R M = mul (mul (mul res4 res3) res2) (mul res1 M)"
    using w432 w1 by (rule mul_assoc)
  also have "\<dots> = mul (mul res4 res3) (mul res2 (mul res1 M))"
    using w43 w2 by (rule mul_assoc)
  also have "\<dots> = mul res4 (mul res3 (mul res2 (mul res1 M)))"
    using w4 w3 by (rule mul_assoc)
  finally have as: "mul ?R M = mul res4 (mul res3 (mul res2 (mul res1 M)))" .
  have s: "solve (state_of M) = Inr (decompo ?R)"
    unfolding solve_def Let_def
    by (simp only: state_corner_pos [OF wM] r1(1) sum.case state_step [OF w1 wM]
        state_corner_ori [OF wc1] r2(1) state_step [OF w2 wc1]
        state_edge_pos [OF wc2] r3(1) state_step [OF w3 wc2]
        state_edge_ori [OF wc3] r4(1))
  show ?thesis using R s r4(3-6) unfolding as [symmetric] by blast
qed

text \<open>
  \<^bold>\<open>Claim C1.\<close>  For every scramble over the twelve quarter-turn symbols,
  \<open>move_list_to_state\<close> returns a state, \<open>solve\<close> on this state returns a token list,
  and replaying the scramble followed by this token list gives a move whose corner and
  edge position matrices and corner and edge orientation matrices are identities; its
  state is the solved state \<open>X\<close>.
\<close>

theorem solve_correct:
  "list_all (\<lambda>t. t \<in> set quarter_turns) scramble \<Longrightarrow>
   \<exists>state sol res.
     move_list_to_state scramble = Inr state \<and> solve state = Inr sol \<and>
     replay (scramble @ sol) (move_seq []) = Inr res \<and>
     A8 res = eye 8 \<and> A12 res = eye 12 \<and> S3 res = eye 24 \<and> S2 res = eye 24 \<and>
     move_list_to_state (scramble @ sol) = Inr X"
proof -
  assume sc: "list_all (\<lambda>t. t \<in> set quarter_turns) scramble"
  obtain M where M: "replay scramble (move_seq []) = Inr M" "M \<in> moves"
    using replay_moves [OF sc id_moves] by blast
  have wM: "wf_move M" by (rule legal3(6) [OF M(2)])
  obtain R where R: "R \<in> moves" "solve (state_of M) = Inr (decompo R)"
    "A8 (mul R M) = eye 8" "A12 (mul R M) = eye 12"
    "S3 (mul R M) = eye 24" "S2 (mul R M) = eye 24"
    using solve_state_of [OF M(2)] by blast
  have st: "move_list_to_state scramble = Inr (state_of M)"
    by (simp add: move_list_to_state_def M(1) state_of_def)
  have "replay (decompo R) M = Inr (mul R M)"
    using moves_faithful [OF R(1)] wM by (rule faithful_replay)
  then have rp: "replay (scramble @ decompo R) (move_seq []) = Inr (mul R M)"
    by (simp add: replay_append M(1))
  have "state_of (mul R M) = X" using R(3-6) by (rule state_of_solved)
  then have fin: "move_list_to_state (scramble @ decompo R) = Inr X"
    by (simp add: move_list_to_state_def rp state_of_def)
  show ?thesis using st R(2-6) rp fin by blast
qed

theorem solve_correct_witness:
  "list_all (\<lambda>t. t \<in> set quarter_turns) [''F'', ''u'', ''R'', ''d'', ''l'', ''B''] \<and>
   (\<exists>state sol res.
     move_list_to_state [''F'', ''u'', ''R'', ''d'', ''l'', ''B''] = Inr state \<and>
     solve state = Inr sol \<and>
     replay ([''F'', ''u'', ''R'', ''d'', ''l'', ''B''] @ sol) (move_seq []) = Inr res \<and>
     A8 res = eye 8 \<and> A12 res = eye 12 \<and> S3 res = eye 24 \<and> S2 res = eye 24 \<and>
     move_list_to_state ([''F'', ''u'', ''R'', ''d'', ''l'', ''B''] @ sol) = Inr X)"
proof -
  have h: "list_all (\<lambda>t. t \<in> set quarter_turns) [''F'', ''u'', ''R'', ''d'', ''l'', ''B'']"
    by (simp add: quarter_turns_def)
  show ?thesis using solve_correct [OF h] h by blast
qed

end
